theory Spec2Isabelle
  imports Complex_Main "HOL-Library.Word" "HOL-Library.Log_Nat"
begin


section \<open>Images and drawing (the parts of Go's image and image/draw that main.go calls)\<close>

text \<open>
  The program is a single file, \<^verbatim>\<open>main.go\<close>. Its canvases are \<^verbatim>\<open>*image.RGBA\<close> values:
  a byte slice \<^verbatim>\<open>Pix\<close> holding four bytes per pixel (R, G, B, A), a \<^verbatim>\<open>Stride\<close> (bytes per
  row) and a bounding rectangle. The decoded frames are seen by \<^verbatim>\<open>draw.Draw\<close> through the
  \<^verbatim>\<open>image.Image\<close> interface only: their bounds and the colour at a point.
  Go's \<^verbatim>\<open>int\<close> is modelled by \<^typ>\<open>int\<close>: every integer below is a coordinate, a size or
  a count of lines that stays far from the 64-bit limits.
\<close>

type_synonym byte = "8 word"

record rectangle =
  MinX :: int
  MinY :: int
  MaxX :: int
  MaxY :: int

text \<open>\<^verbatim>\<open>image.Rect(x0, y0, x1, y1)\<close> orders its corners.\<close>

definition Rect_of :: "int \<Rightarrow> int \<Rightarrow> int \<Rightarrow> int \<Rightarrow> rectangle" where
  "Rect_of x0 y0 x1 y1 =
     \<lparr>MinX = min x0 x1, MinY = min y0 y1, MaxX = max x0 x1, MaxY = max y0 y1\<rparr>"

definition Dx :: "rectangle \<Rightarrow> int" where
  "Dx r = MaxX r - MinX r"

definition Dy :: "rectangle \<Rightarrow> int" where
  "Dy r = MaxY r - MinY r"

definition Empty_rect :: "rectangle \<Rightarrow> bool" where
  "Empty_rect r \<longleftrightarrow> MinX r \<ge> MaxX r \<or> MinY r \<ge> MaxY r"

text \<open>\<^verbatim>\<open>Point.In(r)\<close>: the point lies in the half-open rectangle.\<close>

definition In_rect :: "int \<times> int \<Rightarrow> rectangle \<Rightarrow> bool" where
  "In_rect p r \<longleftrightarrow> MinX r \<le> fst p \<and> fst p < MaxX r \<and> MinY r \<le> snd p \<and> snd p < MaxY r"

text \<open>\<^verbatim>\<open>Rectangle.Intersect\<close>: the largest rectangle in both, the zero rectangle if empty.\<close>

definition Intersect :: "rectangle \<Rightarrow> rectangle \<Rightarrow> rectangle" where
  "Intersect r s =
     (let t = \<lparr>MinX = max (MinX r) (MinX s), MinY = max (MinY r) (MinY s),
               MaxX = min (MaxX r) (MaxX s), MaxY = min (MaxY r) (MaxY s)\<rparr>
      in if Empty_rect t then \<lparr>MinX = 0, MinY = 0, MaxX = 0, MaxY = 0\<rparr> else t)"

record RGBA =
  Pix :: "byte list"
  Stride :: int
  Rect :: rectangle

text \<open>\<^verbatim>\<open>image.NewRGBA(image.Rect(0, 0, w, h))\<close>: all bytes zero, which is fully transparent.\<close>

definition NewRGBA :: "nat \<Rightarrow> nat \<Rightarrow> RGBA" where
  "NewRGBA w h =
     \<lparr>Pix = replicate (4 * w * h) 0, Stride = 4 * int w, Rect = Rect_of 0 0 (int w) (int h)\<rparr>"

text \<open>\<^verbatim>\<open>PixOffset(x, y)\<close>: the index in \<^verbatim>\<open>Pix\<close> of the first byte of the pixel at (x, y).\<close>

definition PixOffset :: "RGBA \<Rightarrow> int \<Rightarrow> int \<Rightarrow> int" where
  "PixOffset img x y = (y - MinY (Rect img)) * Stride img + (x - MinX (Rect img)) * 4"

text \<open>The pixel a byte of \<^verbatim>\<open>Pix\<close> belongs to: the inverse of \<^const>\<open>PixOffset\<close>.\<close>

definition pixel_of :: "RGBA \<Rightarrow> nat \<Rightarrow> int \<times> int" where
  "pixel_of img i =
     (MinX (Rect img) + (int i mod Stride img) div 4, MinY (Rect img) + int i div Stride img)"

text \<open>
  \<^verbatim>\<open>draw.Draw(dst, r, image.NewUniform(color.Transparent), image.Point{}, draw.Src)\<close>:
  the rectangle is clipped to the destination's bounds (the uniform source is unbounded),
  and every byte of every pixel in it is set to zero.
\<close>

definition drawFillTransparent :: "RGBA \<Rightarrow> rectangle \<Rightarrow> RGBA" where
  "drawFillTransparent dst r =
     (let c = Intersect r (Rect dst) in
      dst\<lparr>Pix := map (\<lambda>i. if In_rect (pixel_of dst i) c then 0 else Pix dst ! i)
                     [0..<length (Pix dst)]\<rparr>)"

text \<open>
  \<^verbatim>\<open>draw.Draw(dst, r, src, sp, draw.Src)\<close> with an RGBA source: the rectangle is clipped to
  the destination's bounds and to the source's bounds moved by \<^verbatim>\<open>r.Min - sp\<close>; each pixel
  (x, y) in it receives the source's pixel at \<^verbatim>\<open>(x, y) - r.Min + sp\<close>.
\<close>

definition drawCopySrc :: "RGBA \<Rightarrow> rectangle \<Rightarrow> RGBA \<Rightarrow> int \<times> int \<Rightarrow> RGBA" where
  "drawCopySrc dst r src sp =
     (let dx = MinX r - fst sp; dy = MinY r - snd sp;
          sb = Rect src;
          c = Intersect (Intersect r (Rect dst))
                \<lparr>MinX = MinX sb + dx, MinY = MinY sb + dy, MaxX = MaxX sb + dx, MaxY = MaxY sb + dy\<rparr>
      in dst\<lparr>Pix := map (\<lambda>i. let p = pixel_of dst i in
                           if In_rect p c
                           then Pix src ! nat (PixOffset src (fst p - dx) (snd p - dy) + int (i mod 4))
                           else Pix dst ! i)
                        [0..<length (Pix dst)]\<rparr>)"

text \<open>
  A decoded frame, as \<^verbatim>\<open>draw.Draw\<close> reads it: \<^verbatim>\<open>Bounds()\<close> and \<^verbatim>\<open>At(x, y)\<close>, the latter a
  \<^verbatim>\<open>color.RGBA\<close> value (R, G, B, A), which is what the palette of a decoded GIF holds.
\<close>

record frame =
  Bounds :: rectangle
  At :: "int \<Rightarrow> int \<Rightarrow> byte \<times> byte \<times> byte \<times> byte"

text \<open>Channel \<open>k\<close> of a \<^verbatim>\<open>color.RGBA\<close> as the 16-bit value its \<^verbatim>\<open>RGBA()\<close> method returns.\<close>

definition chan16 :: "byte \<times> byte \<times> byte \<times> byte \<Rightarrow> nat \<Rightarrow> 32 word" where
  "chan16 c k =
     (case c of (r, g, b, a) \<Rightarrow>
        (let v = (if k = 0 then r else if k = 1 then g else if k = 2 then b else a)
         in (ucast v :: 32 word) * 0x101))"

text \<open>
  One byte of the destination under \<^verbatim>\<open>draw.Over\<close>, in the 32-bit arithmetic of the
  library's loop: \<^verbatim>\<open>a := (m - sa) * 0x101; d = uint8((d*a + s*m) / m >> 8)\<close> with
  \<^verbatim>\<open>m = 1<<16 - 1\<close>.
\<close>

definition over_byte :: "32 word \<Rightarrow> 32 word \<Rightarrow> byte \<Rightarrow> byte" where
  "over_byte s sa d =
     (let m = (0xFFFF :: 32 word); a = (m - sa) * 0x101
      in ucast (drop_bit 8 (((ucast d :: 32 word) * a + s * m) div m)))"

text \<open>
  \<^verbatim>\<open>draw.Draw(dst, frame.Bounds(), frame, frame.Bounds().Min, draw.Over)\<close>: the frame's
  rectangle is clipped to the destination, and each pixel in it is blended with the
  frame's colour at the same point.
\<close>

definition drawOver :: "RGBA \<Rightarrow> frame \<Rightarrow> RGBA" where
  "drawOver dst f =
     (let c = Intersect (Bounds f) (Rect dst) in
      dst\<lparr>Pix := map (\<lambda>i. let p = pixel_of dst i in
                           if In_rect p c
                           then over_byte (chan16 (At f (fst p) (snd p)) (i mod 4))
                                          (chan16 (At f (fst p) (snd p)) 3) (Pix dst ! i)
                           else Pix dst ! i)
                        [0..<length (Pix dst)]\<rparr>)"

section \<open>The frame compositor (main, step 3)\<close>

text \<open>A run-time panic of the Go program, as a value.\<close>

datatype error = IndexOutOfRange | NilDereference | LenOutOfRange | NegativeRepeat | DivideByZero

text \<open>
  The result of \<^verbatim>\<open>gif.DecodeAll\<close>, as far as main reads it: the frames, one disposal byte
  per frame, and the size of the logical screen (16-bit unsigned fields of the file).
\<close>

record gif =
  gif_Image :: "frame list"
  gif_Disposal :: "byte list"
  gif_Width :: nat
  gif_Height :: nat

definition DisposalNone :: int where "DisposalNone = 1"
definition DisposalBackground :: int where "DisposalBackground = 2"
definition DisposalPrevious :: int where "DisposalPrevious = 3"

text \<open>The four variables the loop of lines 141-165 carries from one frame to the next.\<close>

record compositor =
  fullFrame :: "RGBA option"
  lastDisposal :: int
  lastBounds :: rectangle
  snapshot :: "RGBA option"

definition compositor_init :: compositor where
  "compositor_init =
     \<lparr>fullFrame = None, lastDisposal = DisposalNone,
      lastBounds = \<lparr>MinX = 0, MinY = 0, MaxX = 0, MaxY = 0\<rparr>, snapshot = None\<rparr>"

text \<open>
  Lines 142-152: on the first frame the canvas and the snapshot are created and the canvas
  is filled with transparent; on every later frame the disposal of the previous frame is
  applied.
\<close>

definition dispose :: "gif \<Rightarrow> compositor \<Rightarrow> error + compositor" where
  "dispose g st =
     (case fullFrame st of
        None \<Rightarrow>
          (let ff = NewRGBA (gif_Width g) (gif_Height g)
           in Inr (st\<lparr>fullFrame := Some (drawFillTransparent ff (Rect ff)),
                      snapshot := Some (NewRGBA (gif_Width g) (gif_Height g))\<rparr>))
      | Some ff \<Rightarrow>
          if lastDisposal st = DisposalPrevious then
            (case snapshot st of
               None \<Rightarrow> Inl NilDereference
             | Some s \<Rightarrow> Inr (st\<lparr>fullFrame := Some (drawCopySrc ff (Rect ff) s (0, 0))\<rparr>))
          else if lastDisposal st \<noteq> DisposalNone then
            Inr (st\<lparr>fullFrame := Some (drawFillTransparent ff (lastBounds st))\<rparr>)
          else Inr st)"

text \<open>The builtin \<^verbatim>\<open>copy(dst, src)\<close> on slices: as many elements as both hold.\<close>

definition copy_slice :: "'a list \<Rightarrow> 'a list \<Rightarrow> 'a list" where
  "copy_slice dst src = (let n = min (length dst) (length src) in take n src @ drop n dst)"

text \<open>Lines 154-156: the snapshot is taken when the frame's own disposal is previous.\<close>

definition take_snapshot :: "byte \<Rightarrow> compositor \<Rightarrow> error + compositor" where
  "take_snapshot d st =
     (if uint d = DisposalPrevious then
        (case (snapshot st, fullFrame st) of
           (Some s, Some ff) \<Rightarrow> Inr (st\<lparr>snapshot := Some (s\<lparr>Pix := copy_slice (Pix s) (Pix ff)\<rparr>)\<rparr>)
         | _ \<Rightarrow> Inl NilDereference)
      else Inr st)"

text \<open>Lines 158-160: the frame is drawn over the canvas, its disposal and bounds are kept.\<close>

definition composite :: "frame \<Rightarrow> byte \<Rightarrow> compositor \<Rightarrow> error + compositor" where
  "composite f d st =
     (case fullFrame st of
        None \<Rightarrow> Inl NilDereference
      | Some ff \<Rightarrow>
          Inr (st\<lparr>fullFrame := Some (drawOver ff f), lastDisposal := uint d, lastBounds := Bounds f\<rparr>))"

text \<open>The canvas state immediately before frame \<open>i\<close> is composited (after line 156).\<close>

definition before_composite :: "gif \<Rightarrow> nat \<Rightarrow> compositor \<Rightarrow> error + compositor" where
  "before_composite g i st =
     (if i < length (gif_Disposal g) then
        (case dispose g st of Inl e \<Rightarrow> Inl e | Inr st1 \<Rightarrow> take_snapshot (gif_Disposal g ! i) st1)
      else Inl IndexOutOfRange)"

text \<open>One iteration of the loop, for frame \<open>i\<close>; \<^verbatim>\<open>g.Disposal[i]\<close> panics out of range.\<close>

definition compose_frame :: "gif \<Rightarrow> nat \<Rightarrow> compositor \<Rightarrow> error + compositor" where
  "compose_frame g i st =
     (if i < length (gif_Image g) then
        (case before_composite g i st of
           Inl e \<Rightarrow> Inl e
         | Inr st2 \<Rightarrow> composite (gif_Image g ! i) (gif_Disposal g ! i) st2)
      else Inl IndexOutOfRange)"

text \<open>The state after the first \<open>k\<close> iterations of \<^verbatim>\<open>for i, frame := range g.Image\<close>.\<close>

fun compose_upto :: "gif \<Rightarrow> nat \<Rightarrow> error + compositor" where
  "compose_upto g 0 = Inr compositor_init"
| "compose_upto g (Suc k) =
     (case compose_upto g k of Inl e \<Rightarrow> Inl e | Inr st \<Rightarrow> compose_frame g k st)"

text \<open>A canvas of the animation's size, as \<^const>\<open>NewRGBA\<close> lays it out.\<close>

definition canvas_of :: "gif \<Rightarrow> RGBA \<Rightarrow> bool" where
  "canvas_of g c \<longleftrightarrow>
     length (Pix c) = 4 * gif_Width g * gif_Height g \<and> Stride c = 4 * int (gif_Width g) \<and>
     Rect c = Rect_of 0 0 (int (gif_Width g)) (int (gif_Height g))"

text \<open>Both canvases exist and have the animation's size: what every iteration keeps.\<close>

definition ready :: "gif \<Rightarrow> compositor \<Rightarrow> bool" where
  "ready g st =
     (case (fullFrame st, snapshot st) of
        (Some c, Some s) \<Rightarrow> canvas_of g c \<and> canvas_of g s
      | _ \<Rightarrow> False)"

text \<open>
  A three-frame animation on a 2 x 2 canvas: a red top row (disposal 2, background), a blue
  right column (disposal 3, previous), a green bottom-left pixel (disposal 1, none).
\<close>

definition example_gif :: gif where
  "example_gif =
     \<lparr>gif_Image =
        [\<lparr>Bounds = Rect_of 0 0 2 1, At = (\<lambda>x y. (255, 0, 0, 255))\<rparr>,
         \<lparr>Bounds = Rect_of 1 0 2 2, At = (\<lambda>x y. (0, 0, 255, 255))\<rparr>,
         \<lparr>Bounds = Rect_of 0 1 1 2, At = (\<lambda>x y. (0, 255, 0, 255))\<rparr>],
      gif_Disposal = [2, 3, 1], gif_Width = 2, gif_Height = 2\<rparr>"

text \<open>The bytes of the composed canvas after \<open>k\<close> frames.\<close>

definition canvas_after :: "gif \<Rightarrow> nat \<Rightarrow> error + byte list option" where
  "canvas_after g k = map_sum id (\<lambda>st. map_option Pix (fullFrame st)) (compose_upto g k)"


section \<open>float64 arithmetic\<close>

text \<open>
  The glyph mapper and the renderer compute with \<^verbatim>\<open>float64\<close>. A finite value is a rational;
  every operation rounds the exact result to the nearest value with a 53-bit significand,
  ties to even, with the exponent range of binary64 (subnormals below \<open>2^-1022\<close>,
  overflow to infinity from \<open>2^1024\<close>). The sign of zero is not kept: the program only
  compares, multiplies and truncates these values, which cannot tell the two zeros apart.
  Each operation rounds once, as the gc compiler does on amd64; fused multiply-add, which
  the language permits on other targets, is not modelled.
\<close>

datatype float64 = Finite rat | PosInf | NegInf | NaN

text \<open>Round to the nearest integer, ties to even.\<close>

definition round_even :: "rat \<Rightarrow> int" where
  "round_even x =
     (let f = \<lfloor>x\<rfloor>; d = x - of_int f
      in if d < 1 / 2 then f else if 1 / 2 < d then f + 1 else if even f then f else f + 1)"

text \<open>The binary exponent of a positive rational: \<open>2^e \<le> x < 2^(e+1)\<close>.\<close>

definition ilog2 :: "rat \<Rightarrow> int" where
  "ilog2 x = (if 1 \<le> x then bitlen \<lfloor>x\<rfloor> - 1 else - bitlen (\<lceil>1 / x\<rceil> - 1))"

definition round64 :: "rat \<Rightarrow> rat" where
  "round64 x =
     (if x = 0 then 0
      else (let e = max (ilog2 \<bar>x\<bar>) (- 1022); u = power_int 2 (e - 52)
            in of_int (round_even (x / u)) * u))"

definition to_float64 :: "rat \<Rightarrow> float64" where
  "to_float64 x =
     (let r = round64 x
      in if 2 ^ 1024 \<le> r then PosInf else if r \<le> - (2 ^ 1024) then NegInf else Finite r)"

fun fmul :: "float64 \<Rightarrow> float64 \<Rightarrow> float64" where
  "fmul (Finite a) (Finite b) = to_float64 (a * b)"
| "fmul NaN _ = NaN"
| "fmul _ NaN = NaN"
| "fmul (Finite a) PosInf = (if a = 0 then NaN else if 0 < a then PosInf else NegInf)"
| "fmul (Finite a) NegInf = (if a = 0 then NaN else if 0 < a then NegInf else PosInf)"
| "fmul PosInf (Finite b) = (if b = 0 then NaN else if 0 < b then PosInf else NegInf)"
| "fmul NegInf (Finite b) = (if b = 0 then NaN else if 0 < b then NegInf else PosInf)"
| "fmul PosInf PosInf = PosInf"
| "fmul PosInf NegInf = NegInf"
| "fmul NegInf PosInf = NegInf"
| "fmul NegInf NegInf = PosInf"

fun fadd :: "float64 \<Rightarrow> float64 \<Rightarrow> float64" where
  "fadd (Finite a) (Finite b) = to_float64 (a + b)"
| "fadd NaN _ = NaN"
| "fadd _ NaN = NaN"
| "fadd PosInf NegInf = NaN"
| "fadd NegInf PosInf = NaN"
| "fadd PosInf _ = PosInf"
| "fadd _ PosInf = PosInf"
| "fadd NegInf _ = NegInf"
| "fadd _ NegInf = NegInf"

fun fdiv :: "float64 \<Rightarrow> float64 \<Rightarrow> float64" where
  "fdiv (Finite a) (Finite b) =
     (if b = 0 then (if a = 0 then NaN else if 0 < a then PosInf else NegInf)
      else to_float64 (a / b))"
| "fdiv NaN _ = NaN"
| "fdiv _ NaN = NaN"
| "fdiv (Finite a) _ = Finite 0"
| "fdiv PosInf (Finite b) = (if 0 \<le> b then PosInf else NegInf)"
| "fdiv NegInf (Finite b) = (if 0 \<le> b then NegInf else PosInf)"
| "fdiv _ _ = NaN"

text \<open>The comparison \<^verbatim>\<open>a > b\<close>: false whenever an operand is not a number.\<close>

fun fgt :: "float64 \<Rightarrow> float64 \<Rightarrow> bool" where
  "fgt (Finite a) (Finite b) = (b < a)"
| "fgt NaN _ = False"
| "fgt _ NaN = False"
| "fgt PosInf PosInf = False"
| "fgt PosInf _ = True"
| "fgt _ PosInf = False"
| "fgt NegInf _ = False"
| "fgt _ NegInf = True"

text \<open>The conversions \<^verbatim>\<open>float64(n)\<close> of an integer and of a byte.\<close>

definition float64_of_int :: "int \<Rightarrow> float64" where
  "float64_of_int n = to_float64 (of_int n)"

definition float64_of_byte :: "byte \<Rightarrow> float64" where
  "float64_of_byte v = float64_of_int (uint v)"

text \<open>
  The conversion \<^verbatim>\<open>int(f)\<close> discards the fraction (truncation towards zero); the language
  leaves the result open when the value is not finite or does not fit, which is \<open>None\<close>.
\<close>

definition int_of_float64 :: "float64 \<Rightarrow> int option" where
  "int_of_float64 f =
     (case f of
        Finite a \<Rightarrow>
          (let t = (if 0 \<le> a then \<lfloor>a\<rfloor> else \<lceil>a\<rceil>)
           in if - (2 ^ 63) \<le> t \<and> t < 2 ^ 63 then Some t else None)
      | _ \<Rightarrow> None)"

section \<open>The glyph mapper (pixelToASCII)\<close>

text \<open>
  Go strings are byte sequences; the glyphs outside ASCII are written as their UTF-8 bytes:
  U+25CC, U+25CF, U+29BE, U+29BF and U+2B24.
\<close>

definition glyph_space :: string where "glyph_space = '' ''"
definition glyph_dot :: string where "glyph_dot = ''.''"
definition glyph_dotted_circle :: string where
  "glyph_dotted_circle = [CHR 0xE2, CHR 0x97, CHR 0x8C]"
definition glyph_star :: string where "glyph_star = ''*''"
definition glyph_black_circle :: string where
  "glyph_black_circle = [CHR 0xE2, CHR 0x97, CHR 0x8F]"
definition glyph_circled_white_bullet :: string where
  "glyph_circled_white_bullet = [CHR 0xE2, CHR 0xA6, CHR 0xBE]"
definition glyph_circled_bullet :: string where
  "glyph_circled_bullet = [CHR 0xE2, CHR 0xA6, CHR 0xBF]"
definition glyph_large_circle :: string where
  "glyph_large_circle = [CHR 0xE2, CHR 0xAC, CHR 0xA4]"

text \<open>Line 277: the luminance, the sum associated to the left as Go evaluates it.\<close>

definition luminance :: "byte \<Rightarrow> byte \<Rightarrow> byte \<Rightarrow> float64" where
  "luminance r g b =
     fadd (fadd (fmul (to_float64 (2126 / 10000)) (float64_of_byte r))
                (fmul (to_float64 (7152 / 10000)) (float64_of_byte g)))
          (fmul (to_float64 (722 / 10000)) (float64_of_byte b))"

text \<open>Lines 276-296: the first case of the switch that holds decides.\<close>

definition pixelToASCII :: "byte \<Rightarrow> byte \<Rightarrow> byte \<Rightarrow> float64 \<Rightarrow> string" where
  "pixelToASCII r g b multiplier =
     (let lum = luminance r g b in
      if fgt lum (fmul (Finite 1000) multiplier) then glyph_space
      else if fgt lum (fmul (Finite 250) multiplier) then glyph_dot
      else if fgt lum (fmul (Finite 180) multiplier) then glyph_dotted_circle
      else if fgt lum (fmul (Finite 140) multiplier) then glyph_star
      else if fgt lum (fmul (Finite 120) multiplier) then glyph_black_circle
      else if fgt lum (fmul (Finite 60) multiplier) then glyph_circled_white_bullet
      else if fgt lum (fmul (Finite 30) multiplier) then glyph_circled_bullet
      else glyph_large_circle)"

text \<open>The multiplier is at least \<open>c\<close>: a finite value not below it, or plus infinity.\<close>

definition at_least :: "rat \<Rightarrow> float64 \<Rightarrow> bool" where
  "at_least c m = (case m of Finite q \<Rightarrow> c \<le> q | PosInf \<Rightarrow> True | _ \<Rightarrow> False)"

text \<open>
  The cases of the switch of lines 278-295 as a ramp, darkest to lightest: the glyph of
  the default case, which has no threshold, then the seven thresholds the luminance is
  compared with, each with the glyph of its case. As the specification describes the
  selection, the glyph of a luminance is that of the last threshold it exceeds, each
  threshold first multiplied by the multiplier; the darkest glyph if it exceeds none.
\<close>

definition darkest_glyph :: string where
  "darkest_glyph = glyph_large_circle"

definition glyph_ramp :: "(rat \<times> string) list" where
  "glyph_ramp =
     [(30, glyph_circled_bullet), (60, glyph_circled_white_bullet), (120, glyph_black_circle),
      (140, glyph_star), (180, glyph_dotted_circle), (250, glyph_dot), (1000, glyph_space)]"

definition ramp_glyph :: "float64 \<Rightarrow> float64 \<Rightarrow> string" where
  "ramp_glyph lum multiplier =
     (case filter (\<lambda>(t, g). fgt lum (fmul (Finite t) multiplier)) glyph_ramp of
        [] \<Rightarrow> darkest_glyph
      | e # es \<Rightarrow> snd (last (e # es)))"

text \<open>The luminance formula in exact arithmetic.\<close>

definition exact_luminance :: "byte \<Rightarrow> byte \<Rightarrow> byte \<Rightarrow> rat" where
  "exact_luminance r g b =
     (2126 * of_int (uint r) + 7152 * of_int (uint g) + 722 * of_int (uint b)) / 10000"

section \<open>The frame renderer (renderFrame)\<close>

text \<open>The text for a transparent pixel: the colour reset, then a space.\<close>

definition reset_space :: string where
  "reset_space = CHR 0x1B # ''[0m ''"

text \<open>\<^verbatim>\<open>%d\<close> of a non-negative number.\<close>

fun decimal :: "nat \<Rightarrow> string" where
  "decimal n =
     (if n < 10 then [char_of (48 + n)] else decimal (n div 10) @ [char_of (48 + n mod 10)])"

text \<open>Line 251: the glyph in a 24-bit foreground colour, then the reset.\<close>

definition colored :: "byte \<Rightarrow> byte \<Rightarrow> byte \<Rightarrow> string \<Rightarrow> string" where
  "colored r g b glyph =
     CHR 0x1B # ''[38;2;'' @ decimal (unat r) @ '';'' @ decimal (unat g) @ '';'' @
       decimal (unat b) @ ''m'' @ glyph @ CHR 0x1B # ''[0m''"

text \<open>Lines 246-255: what one sampled pixel contributes to its row.\<close>

definition render_pixel :: "byte \<Rightarrow> byte \<Rightarrow> byte \<Rightarrow> byte \<Rightarrow> bool \<Rightarrow> float64 \<Rightarrow> string" where
  "render_pixel r8 g8 b8 a8 colorOutput multiplier =
     (if a8 = 0 then reset_space
      else (let glyph = pixelToASCII r8 g8 b8 multiplier
            in if colorOutput then colored r8 g8 b8 glyph else glyph))"

text \<open>
  Lines 231-232 and 241-242: \<^verbatim>\<open>int(float64(i) * (float64(extent) / float64(target)))\<close>, the
  source column or row for a target column or row.
\<close>

definition sample_coord :: "int \<Rightarrow> int \<Rightarrow> int \<Rightarrow> int option" where
  "sample_coord extent target i =
     int_of_float64
       (fmul (float64_of_int i) (fdiv (float64_of_int extent) (float64_of_int target)))"

datatype render_error = Panic error | UndefinedConversion

text \<open>
  An \<^verbatim>\<open>int\<close> of the program has 64 bits: a sum, a difference or a product that leaves
  the range from \<open>-2^63\<close> up to \<open>2^63\<close> wraps around.
\<close>

definition wrap64 :: "int \<Rightarrow> int" where
  "wrap64 i = (i + 2 ^ 63) mod 2 ^ 64 - 2 ^ 63"

text \<open>Line 244: four reads of \<^verbatim>\<open>pix\<close>, each of which panics out of range.\<close>

definition read_pixel :: "byte list \<Rightarrow> int \<Rightarrow> render_error + byte \<times> byte \<times> byte \<times> byte" where
  "read_pixel pix off =
     (if 0 \<le> off \<and> off + 3 < int (length pix)
      then Inr (pix ! nat off, pix ! nat (off + 1), pix ! nat (off + 2), pix ! nat (off + 3))
      else Inl (Panic IndexOutOfRange))"

text \<open>
  Lines 241-255: the text of column \<open>x\<close> in row \<open>y\<close>; line 243 is
  \<^verbatim>\<open>py*stride + px*4\<close>.
\<close>

definition render_cell ::
  "RGBA \<Rightarrow> int \<Rightarrow> int \<Rightarrow> bool \<Rightarrow> float64 \<Rightarrow> int \<Rightarrow> int \<Rightarrow> render_error + string" where
  "render_cell img width height colorOutput multiplier y x =
     (case (sample_coord (Dx (Rect img)) width x, sample_coord (Dy (Rect img)) height y) of
        (Some px, Some py) \<Rightarrow>
          (case read_pixel (Pix img) (wrap64 (wrap64 (py * Stride img) + wrap64 (px * 4))) of
             Inl e \<Rightarrow> Inl e
           | Inr (r8, g8, b8, a8) \<Rightarrow> Inr (render_pixel r8 g8 b8 a8 colorOutput multiplier))
      | _ \<Rightarrow> Inl UndefinedConversion)"

text \<open>The results of a loop whose body can fail, up to the first failure.\<close>

fun collect :: "('e + 'a) list \<Rightarrow> 'e + 'a list" where
  "collect [] = Inr []"
| "collect (Inl e # xs) = Inl e"
| "collect (Inr v # xs) = (case collect xs of Inl e \<Rightarrow> Inl e | Inr vs \<Rightarrow> Inr (v # vs))"

text \<open>
  Lines 239-260: the image part of row \<open>y\<close>, the sampled pixels of a row of the picture or
  the padding below it. \<^verbatim>\<open>strings.Repeat\<close> panics on a negative count, and the buffer it
  makes for the padding on a length above the \<open>2^48\<close> bytes the runtime can address.
\<close>

definition image_part ::
  "RGBA \<Rightarrow> int \<Rightarrow> int \<Rightarrow> bool \<Rightarrow> float64 \<Rightarrow> int \<Rightarrow> render_error + string" where
  "image_part img width height colorOutput multiplier y =
     (if y < height then
        (case collect (map (\<lambda>x. render_cell img width height colorOutput multiplier y (int x))
                           [0..<nat width]) of
           Inl e \<Rightarrow> Inl e
         | Inr cells \<Rightarrow> Inr (concat cells))
      else if width < 0 then Inl (Panic NegativeRepeat)
      else if 2 ^ 48 < width then Inl (Panic LenOutOfRange)
      else Inr (replicate (nat width) CHR '' ''))"

text \<open>Lines 263-267: the separator and the overlay line of row \<open>y\<close>, if it has one.\<close>

definition overlay_part :: "string list \<Rightarrow> int \<Rightarrow> int \<Rightarrow> string" where
  "overlay_part sysInfo offset y =
     (let sysIndex = wrap64 (y - offset)
      in if 0 \<le> sysIndex \<and> sysIndex < int (length sysInfo)
         then ''   '' @ sysInfo ! nat sysIndex else [])"

definition render_row ::
  "RGBA \<Rightarrow> int \<Rightarrow> int \<Rightarrow> string list \<Rightarrow> bool \<Rightarrow> float64 \<Rightarrow> int \<Rightarrow> int \<Rightarrow> render_error + string" where
  "render_row img width height sysInfo colorOutput multiplier offset y =
     (case image_part img width height colorOutput multiplier y of
        Inl e \<Rightarrow> Inl e
      | Inr s \<Rightarrow> Inr (s @ overlay_part sysInfo offset y))"

text \<open>Lines 223-226; the sum \<^verbatim>\<open>len(sysInfo)+offset\<close> wraps around.\<close>

definition totalHeight :: "int \<Rightarrow> string list \<Rightarrow> int \<Rightarrow> int" where
  "totalHeight height sysInfo offset =
     (if wrap64 (int (length sysInfo) + offset) > height
      then wrap64 (int (length sysInfo) + offset) else height)"

text \<open>
  Lines 221-273. \<^verbatim>\<open>make([]string, totalHeight)\<close> panics on a negative length and on a
  length above \<open>2^44\<close>: a string header takes 16 bytes, and the runtime makes no slice of
  more than \<open>2^48\<close> bytes. A length it admits is taken to be allocated: the model has
  no other bound on memory.
\<close>

definition renderFrame ::
  "RGBA \<Rightarrow> int \<Rightarrow> int \<Rightarrow> string list \<Rightarrow> bool \<Rightarrow> float64 \<Rightarrow> int \<Rightarrow> render_error + string list" where
  "renderFrame img width height sysInfo colorOutput multiplier offset =
     (let th = totalHeight height sysInfo offset
      in if th < 0 \<or> 2 ^ 44 < th then Inl (Panic LenOutOfRange)
         else collect (map (\<lambda>y. render_row img width height sysInfo colorOutput multiplier
                                   offset (int y))
                           [0..<nat th]))"

text \<open>Every pixel the loops of \<^const>\<open>renderFrame\<close> sample can be read.\<close>

definition samples_ok :: "RGBA \<Rightarrow> int \<Rightarrow> int \<Rightarrow> bool \<Rightarrow> float64 \<Rightarrow> bool" where
  "samples_ok img width height colorOutput multiplier =
     list_all (\<lambda>y. list_all (\<lambda>x. \<not> isl (render_cell img width height colorOutput multiplier
                                            (int y) (int x)))
                             [0..<nat width])
              [0..<nat height]"

text \<open>
  A canvas with at least one pixel, laid out as \<^const>\<open>NewRGBA\<close> does, with sides below
  \<open>2^31\<close> (a GIF's sides are 16-bit) and, as the length of a slice, a number of bytes
  below \<open>2^63\<close>.
\<close>

definition well_formed :: "RGBA \<Rightarrow> bool" where
  "well_formed img \<longleftrightarrow>
     0 < Dx (Rect img) \<and> Dx (Rect img) < 2 ^ 31 \<and> 0 < Dy (Rect img) \<and> Dy (Rect img) < 2 ^ 31 \<and>
     Stride img = 4 * Dx (Rect img) \<and>
     int (length (Pix img)) = 4 * Dx (Rect img) * Dy (Rect img) \<and>
     4 * Dx (Rect img) * Dy (Rect img) < 2 ^ 63"

text \<open>A 2 x 2 canvas: an opaque red, a transparent, an opaque white and an opaque black pixel.\<close>

definition example_canvas :: RGBA where
  "example_canvas =
     \<lparr>Pix = [255, 0, 0, 255, 9, 9, 9, 0, 255, 255, 255, 255, 0, 0, 0, 255],
      Stride = 8, Rect = Rect_of 0 0 2 2\<rparr>"

section \<open>The playback delay (main, line 193)\<close>

text \<open>Go's integer division truncates towards zero and panics on a zero divisor.\<close>

definition go_quot :: "int \<Rightarrow> int \<Rightarrow> error + int" where
  "go_quot a b = (if b = 0 then Inl DivideByZero else Inr (sgn a * sgn b * (\<bar>a\<bar> div \<bar>b\<bar>)))"

text \<open>
  \<^verbatim>\<open>time.Duration(1000/cfg.FPS) * time.Millisecond\<close>: a duration is a count of nanoseconds,
  a millisecond is 1000000 of them. The quotient is at most 1000 in size, so the 64-bit
  product does not overflow.
\<close>

definition frame_delay :: "int \<Rightarrow> error + int" where
  "frame_delay fps =
     (case go_quot 1000 fps of Inl e \<Rightarrow> Inl e | Inr q \<Rightarrow> Inr (q * 1000000))"

text \<open>
  The delay as the specification words it: \<open>d\<close> nanoseconds are \<open>1000 / fps\<close> milliseconds.
\<close>

definition exact_delay :: "int \<Rightarrow> int \<Rightarrow> bool" where
  "exact_delay fps d \<longleftrightarrow> (of_int d :: rat) / 1000000 = 1000 / of_int fps"

section \<open>The overlay text (runCommand, getCommandOutputLines)\<close>

text \<open>
  \<^verbatim>\<open>strings.Fields\<close> splits around runs of white space as \<^verbatim>\<open>unicode.IsSpace\<close> defines it:
  six ASCII characters, U+0085 and U+00A0 (two bytes each in UTF-8), and U+1680,
  U+2000 to U+200A, U+2028, U+2029, U+202F, U+205F and U+3000 (three bytes each).
\<close>

definition ascii_space :: "char \<Rightarrow> bool" where
  "ascii_space c \<longleftrightarrow> c \<in> set [CHR 0x09, CHR 0x0A, CHR 0x0B, CHR 0x0C, CHR 0x0D, CHR 0x20]"

definition two_byte_spaces :: "string list" where
  "two_byte_spaces = [[CHR 0xC2, CHR 0x85], [CHR 0xC2, CHR 0xA0]]"

definition three_byte_spaces :: "string list" where
  "three_byte_spaces =
     [[CHR 0xE1, CHR 0x9A, CHR 0x80], [CHR 0xE2, CHR 0x80, CHR 0x80],
      [CHR 0xE2, CHR 0x80, CHR 0x81], [CHR 0xE2, CHR 0x80, CHR 0x82],
      [CHR 0xE2, CHR 0x80, CHR 0x83], [CHR 0xE2, CHR 0x80, CHR 0x84],
      [CHR 0xE2, CHR 0x80, CHR 0x85], [CHR 0xE2, CHR 0x80, CHR 0x86],
      [CHR 0xE2, CHR 0x80, CHR 0x87], [CHR 0xE2, CHR 0x80, CHR 0x88],
      [CHR 0xE2, CHR 0x80, CHR 0x89], [CHR 0xE2, CHR 0x80, CHR 0x8A],
      [CHR 0xE2, CHR 0x80, CHR 0xA8], [CHR 0xE2, CHR 0x80, CHR 0xA9],
      [CHR 0xE2, CHR 0x80, CHR 0xAF], [CHR 0xE2, CHR 0x81, CHR 0x9F],
      [CHR 0xE3, CHR 0x80, CHR 0x80]]"

text \<open>The number of bytes of the white-space character a string starts with, 0 if none.\<close>

definition space_width :: "string \<Rightarrow> nat" where
  "space_width s =
     (if s \<noteq> [] \<and> ascii_space (hd s) then 1
      else if take 2 s \<in> set two_byte_spaces then 2
      else if take 3 s \<in> set three_byte_spaces then 3
      else 0)"

text \<open>The fields of the rest of a string, \<open>cur\<close> being the field read so far.\<close>

function Fields_from :: "string \<Rightarrow> string \<Rightarrow> string list" where
  "Fields_from cur [] = (if cur = [] then [] else [cur])"
| "Fields_from cur (c # cs) =
     (if space_width (c # cs) = 0 then Fields_from (cur @ [c]) cs
      else (if cur = [] then [] else [cur]) @ Fields_from [] (drop (space_width (c # cs)) (c # cs)))"
  by pat_completeness auto
termination
  by (relation "measure (\<lambda>(cur, s). length s)") auto

definition Fields :: "string \<Rightarrow> string list" where
  "Fields s = Fields_from [] s"

text \<open>\<^verbatim>\<open>strings.Split(s, "\n")\<close>: the pieces between the newlines, one more than there are.\<close>

fun Split_nl :: "string \<Rightarrow> string list" where
  "Split_nl [] = [[]]"
| "Split_nl (c # cs) =
     (if c = CHR 0x0A then [] # Split_nl cs
      else (case Split_nl cs of [] \<Rightarrow> [[c]] | l # ls \<Rightarrow> (c # l) # ls))"

text \<open>\<^verbatim>\<open>strings.TrimRight(line, "\r\n")\<close>.\<close>

definition TrimRight_crlf :: "string \<Rightarrow> string" where
  "TrimRight_crlf s = rev (dropWhile (\<lambda>c. c = CHR 0x0D \<or> c = CHR 0x0A) (rev s))"

text \<open>
  What the program asks of the operating system: whether \<^verbatim>\<open>script\<close> and \<^verbatim>\<open>unbuffer\<close>
  are on the path, the platform, and the combined output and the error flag of running a
  program with arguments.
\<close>

record environment =
  has_script :: bool
  has_unbuffer :: bool
  is_darwin :: bool
  run_cmd :: "string \<Rightarrow> string list \<Rightarrow> string \<times> bool"

text \<open>Lines 299-336.\<close>

definition runCommand :: "environment \<Rightarrow> string \<Rightarrow> string" where
  "runCommand env commandLine =
     (let parts = Fields commandLine in
      if parts = [] then []
      else
        let flags = (if is_darwin env then [''-q -c''] else [''-qefc'']) in
        if has_script env then
          fst (run_cmd env ''script'' (flags @ [commandLine @ '' 2>/dev/null'', ''/dev/null'']))
        else if has_unbuffer env then fst (run_cmd env ''unbuffer'' parts)
        else
          (case run_cmd env (hd parts) (tl parts) of
             (out, err) \<Rightarrow>
               if err then ''Error running command: '' @ hd parts @ [CHR 0x0A] @ out else out))"

text \<open>Lines 339-351: the non-empty lines of the text, without trailing CR and LF.\<close>

definition clean_lines :: "string \<Rightarrow> string list" where
  "clean_lines output = filter (\<lambda>line. line \<noteq> []) (map TrimRight_crlf (Split_nl output))"

definition getCommandOutputLines :: "environment \<Rightarrow> string \<Rightarrow> string list" where
  "getCommandOutputLines env commandLine = clean_lines (runCommand env commandLine)"

text \<open>
  A system with neither \<^verbatim>\<open>script\<close> nor \<^verbatim>\<open>unbuffer\<close> on which every command fails to
  start: no output, an error.
\<close>

definition bare_system :: environment where
  "bare_system =
     \<lparr>has_script = False, has_unbuffer = False, is_darwin = False,
      run_cmd = (\<lambda>name args. ([], True))\<rparr>"

section \<open>The concurrent pipeline (main from line 117, worker)\<close>

text \<open>
  The goroutines of the program are the main goroutine, the workers and the goroutine
  that collects the results. They share the three channels and the slice
  \<^verbatim>\<open>prerendered\<close>. The model is an interleaving of their steps: a step is what one
  goroutine does up to and including its next operation on shared state, and a goroutine
  whose next operation blocks has no step. A schedule is the list of goroutines in the
  order they step.
\<close>

record Config =
  Width :: int
  Height :: int
  FPS :: int
  Color :: bool

text \<open>What main has in hand at line 117: the decoded animation, the flags, the overlay.\<close>

record program =
  prog_gif :: gif
  prog_cfg :: Config
  prog_sysInfo :: "string list"
  prog_multiplier :: float64
  prog_offset :: int
  numWorkers :: nat

record RenderJob =
  job_Index :: nat
  job_Image :: RGBA
  job_PoolKey :: RGBA

record RenderResult =
  res_Index :: nat
  res_Lines :: "string list"

datatype actor = Main | Worker nat | Collector

text \<open>
  Where the main goroutine stands: at the head of the loop for frame \<open>i\<close> (line 141),
  at the receive from the pool (line 162), at the send of the job (lines 163-164), at the
  start of the collector (lines 169-174), at \<^verbatim>\<open>wg.Wait()\<close>, at \<^verbatim>\<open>close(results)\<close>, at the
  read of the first frame (line 181), at the delay (line 193), in the playback loop about
  to write frame \<open>k\<close>.
\<close>

datatype main_pc =
  AtLoop nat | AtAcquire nat | AtSend nat RGBA | AtStartCollector | AtWait | AtCloseResults
  | AtFirstFrame | AtDelay | AtPlayback nat

text \<open>
  A worker waits for a job (line 213), holds a rendered job whose result it is about to
  send (line 215), holds a job whose buffer it is about to give back (line 216), or has
  returned.
\<close>

datatype worker_pc = WRecv | WSendResult RenderJob "string list" | WRelease RenderJob | WDone

datatype collector_pc = CNotStarted | CRecv | CDone

record state =
  main :: main_pc
  comp :: compositor
  bufferPool :: "RGBA list"
  jobs :: "RenderJob list"
  jobs_closed :: bool
  results :: "RenderResult list"
  results_closed :: bool
  workers :: "worker_pc list"
  wg :: nat
  collector :: collector_pc
  prerendered :: "string list option list"
  writes :: "nat list"
  firstFrame :: "string list option"
  delay :: int
  terminal :: string
  panicked :: "render_error option"

text \<open>
  The state after line 133: the pool filled with \<open>2 * numWorkers\<close> canvases, the workers
  started. An entry of \<^verbatim>\<open>prerendered\<close> is \<open>None\<close> while it is nil; \<open>writes\<close> counts the
  assignments to each entry (it is not a variable of the program).
\<close>

definition init :: "program \<Rightarrow> state" where
  "init p =
     \<lparr>main = AtLoop 0, comp = compositor_init,
      bufferPool = replicate (numWorkers p * 2)
                     (NewRGBA (gif_Width (prog_gif p)) (gif_Height (prog_gif p))),
      jobs = [], jobs_closed = False, results = [], results_closed = False,
      workers = replicate (numWorkers p) WRecv, wg = numWorkers p,
      collector = CNotStarted, prerendered = [], writes = [], firstFrame = None,
      delay = 0, terminal = [], panicked = None\<rparr>"

definition crash :: "render_error \<Rightarrow> state \<Rightarrow> state option" where
  "crash e s = Some (s\<lparr>panicked := Some e\<rparr>)"

text \<open>Lines 197-204: one frame written to the terminal (the sleep is not modelled).\<close>

definition write_frame :: "string list option \<Rightarrow> string" where
  "write_frame frameStrings =
     CHR 0x1B # ''[H'' @
       concat (map (\<lambda>line. line @ [CHR 0x0A]) (case frameStrings of None \<Rightarrow> [] | Some ls \<Rightarrow> ls))"

text \<open>The channels \<^verbatim>\<open>jobs\<close> and \<^verbatim>\<open>results\<close> hold as many elements as there are frames.\<close>

definition main_step :: "program \<Rightarrow> state \<Rightarrow> state option" where
  "main_step p s =
     (let g = prog_gif p; n = length (gif_Image g) in
      case main s of
        AtLoop i \<Rightarrow>
          if i < n then
            (case compose_frame g i (comp s) of
               Inl e \<Rightarrow> crash (Panic e) s
             | Inr c \<Rightarrow> Some (s\<lparr>comp := c, main := AtAcquire i\<rparr>))
          else Some (s\<lparr>jobs_closed := True, main := AtStartCollector\<rparr>)
      | AtAcquire i \<Rightarrow>
          (case bufferPool s of
             [] \<Rightarrow> None
           | frameCopy # rest \<Rightarrow> Some (s\<lparr>bufferPool := rest, main := AtSend i frameCopy\<rparr>))
      | AtSend i frameCopy \<Rightarrow>
          (case fullFrame (comp s) of
             None \<Rightarrow> crash (Panic NilDereference) s
           | Some ff \<Rightarrow>
               if length (jobs s) < n then
                 (let filled = frameCopy\<lparr>Pix := copy_slice (Pix frameCopy) (Pix ff)\<rparr>
                  in Some (s\<lparr>jobs := jobs s @
                                 [\<lparr>job_Index = i, job_Image = filled, job_PoolKey = filled\<rparr>],
                              main := AtLoop (i + 1)\<rparr>))
               else None)
      | AtStartCollector \<Rightarrow>
          Some (s\<lparr>prerendered := replicate n None, writes := replicate n 0,
                   collector := CRecv, main := AtWait\<rparr>)
      | AtWait \<Rightarrow> if wg s = 0 then Some (s\<lparr>main := AtCloseResults\<rparr>) else None
      | AtCloseResults \<Rightarrow> Some (s\<lparr>results_closed := True, main := AtFirstFrame\<rparr>)
      | AtFirstFrame \<Rightarrow>
          (case prerendered s of
             [] \<Rightarrow> crash (Panic IndexOutOfRange) s
           | first # _ \<Rightarrow> Some (s\<lparr>firstFrame := first, main := AtDelay\<rparr>))
      | AtDelay \<Rightarrow>
          (case frame_delay (FPS (prog_cfg p)) of
             Inl e \<Rightarrow> crash (Panic e) s
           | Inr d \<Rightarrow> Some (s\<lparr>delay := d, main := AtPlayback 0\<rparr>))
      | AtPlayback k \<Rightarrow>
          if k < length (prerendered s) then
            Some (s\<lparr>terminal := terminal s @ write_frame (prerendered s ! k),
                     main := AtPlayback (if k + 1 < length (prerendered s) then k + 1 else 0)\<rparr>)
          else Some s)"

text \<open>Lines 210-218.\<close>

definition worker_step :: "program \<Rightarrow> nat \<Rightarrow> state \<Rightarrow> state option" where
  "worker_step p w s =
     (if w < length (workers s) then
        (case workers s ! w of
           WRecv \<Rightarrow>
             (case jobs s of
                [] \<Rightarrow>
                  if jobs_closed s
                  then Some (s\<lparr>workers := (workers s)[w := WDone], wg := wg s - 1\<rparr>)
                  else None
              | job # rest \<Rightarrow>
                  (case renderFrame (job_Image job) (Width (prog_cfg p)) (Height (prog_cfg p))
                          (prog_sysInfo p) (Color (prog_cfg p)) (prog_multiplier p)
                          (prog_offset p) of
                     Inl e \<Rightarrow> crash e s
                   | Inr lines \<Rightarrow>
                       Some (s\<lparr>jobs := rest, workers := (workers s)[w := WSendResult job lines]\<rparr>)))
         | WSendResult job lines \<Rightarrow>
             if length (results s) < length (gif_Image (prog_gif p)) then
               Some (s\<lparr>results := results s @ [\<lparr>res_Index = job_Index job, res_Lines = lines\<rparr>],
                        workers := (workers s)[w := WRelease job]\<rparr>)
             else None
         | WRelease job \<Rightarrow>
             if length (bufferPool s) < numWorkers p * 2 then
               Some (s\<lparr>bufferPool := bufferPool s @ [job_PoolKey job],
                        workers := (workers s)[w := WRecv]\<rparr>)
             else None
         | WDone \<Rightarrow> None)
      else None)"

text \<open>Lines 170-174.\<close>

definition collector_step :: "state \<Rightarrow> state option" where
  "collector_step s =
     (case collector s of
        CRecv \<Rightarrow>
          (case results s of
             [] \<Rightarrow> if results_closed s then Some (s\<lparr>collector := CDone\<rparr>) else None
           | result # rest \<Rightarrow>
               if res_Index result < length (prerendered s) then
                 Some (s\<lparr>results := rest,
                          prerendered := (prerendered s)[res_Index result := Some (res_Lines result)],
                          writes := (writes s)[res_Index result := writes s ! res_Index result + 1]\<rparr>)
               else crash (Panic IndexOutOfRange) s)
      | _ \<Rightarrow> None)"

text \<open>A panic ends the program: no goroutine steps after it.\<close>

definition step :: "program \<Rightarrow> actor \<Rightarrow> state \<Rightarrow> state option" where
  "step p a s =
     (if panicked s \<noteq> None then None
      else (case a of
              Main \<Rightarrow> main_step p s
            | Worker w \<Rightarrow> worker_step p w s
            | Collector \<Rightarrow> collector_step s))"

fun run :: "program \<Rightarrow> actor list \<Rightarrow> state \<Rightarrow> state option" where
  "run p [] s = Some s"
| "run p (a # sched) s = (case step p a s of None \<Rightarrow> None | Some s' \<Rightarrow> run p sched s')"

text \<open>
  The canvases of the pool that are checked out: the one main holds between the receive
  and the send, those in the job queue, and those the workers hold.
\<close>

definition holds_canvas :: "worker_pc \<Rightarrow> nat" where
  "holds_canvas w = (case w of WSendResult _ _ \<Rightarrow> 1 | WRelease _ \<Rightarrow> 1 | _ \<Rightarrow> 0)"

definition checked_out :: "state \<Rightarrow> nat" where
  "checked_out s =
     (case main s of AtSend _ _ \<Rightarrow> 1 | _ \<Rightarrow> 0) + length (jobs s) +
     sum_list (map holds_canvas (workers s))"

text \<open>
  A one-frame animation on a 1 x 1 canvas (the frame is transparent), rendered at one
  column by one row with one worker and no overlay.
\<close>

definition one_frame :: program where
  "one_frame =
     \<lparr>prog_gif =
        \<lparr>gif_Image = [\<lparr>Bounds = Rect_of 0 0 1 1, At = (\<lambda>x y. (0, 0, 0, 0))\<rparr>],
         gif_Disposal = [0], gif_Width = 1, gif_Height = 1\<rparr>,
      prog_cfg = \<lparr>Width = 1, Height = 1, FPS = 17, Color = True\<rparr>,
      prog_sysInfo = [], prog_multiplier = to_float64 (12 / 10), prog_offset = 0,
      numWorkers = 1\<rparr>"

text \<open>
  A schedule of it: main dispatches the frame and closes the job queue, the worker
  renders the frame, sends the result, gives the canvas back and returns, main starts
  the collector, passes \<^verbatim>\<open>wg.Wait()\<close>, closes the results, reads the first frame and
  computes the delay. The collector has not run.
\<close>

definition collector_late :: "actor list" where
  "collector_late =
     [Main, Main, Main, Main, Worker 0, Worker 0, Worker 0, Worker 0,
      Main, Main, Main, Main, Main]"

text \<open>What the claims look at in a state.\<close>

definition observe ::
  "state \<Rightarrow> main_pc \<times> string list option list \<times> nat list \<times> collector_pc \<times> render_error option" where
  "observe s = (main s, prerendered s, map res_Index (results s), collector s, panicked s)"

text \<open>The three-frame animation of the compositor's example, with one worker.\<close>

definition three_frames :: program where
  "three_frames =
     \<lparr>prog_gif = example_gif,
      prog_cfg = \<lparr>Width = 2, Height = 1, FPS = 17, Color = False\<rparr>,
      prog_sysInfo = [], prog_multiplier = to_float64 (12 / 10), prog_offset = 0,
      numWorkers = 1\<rparr>"

text \<open>
  The frames dispatched so far, and how often frame \<open>k\<close> is under way: as a job in the
  queue, as a rendered job in a worker's hands, as a result in the queue, or as an
  assignment made to \<^verbatim>\<open>prerendered[k]\<close>.
\<close>

definition frame_count :: "program \<Rightarrow> nat" where
  "frame_count p = length (gif_Image (prog_gif p))"

definition in_loop :: "main_pc \<Rightarrow> bool" where
  "in_loop pc = (case pc of AtLoop _ \<Rightarrow> True | AtAcquire _ \<Rightarrow> True | AtSend _ _ \<Rightarrow> True | _ \<Rightarrow> False)"

definition past_wait :: "main_pc \<Rightarrow> bool" where
  "past_wait pc =
     (case pc of AtCloseResults \<Rightarrow> True | AtFirstFrame \<Rightarrow> True | AtDelay \<Rightarrow> True
      | AtPlayback _ \<Rightarrow> True | _ \<Rightarrow> False)"

definition dispatched :: "program \<Rightarrow> state \<Rightarrow> nat" where
  "dispatched p s =
     (case main s of AtLoop i \<Rightarrow> i | AtAcquire i \<Rightarrow> i | AtSend i _ \<Rightarrow> i | _ \<Rightarrow> frame_count p)"

definition holds_index :: "nat \<Rightarrow> worker_pc \<Rightarrow> nat" where
  "holds_index k w =
     (case w of WSendResult job _ \<Rightarrow> (if job_Index job = k then 1 else 0) | _ \<Rightarrow> 0)"

definition written :: "state \<Rightarrow> nat \<Rightarrow> nat" where
  "written s k = (if k < length (writes s) then writes s ! k else 0)"

definition in_flight :: "state \<Rightarrow> nat \<Rightarrow> nat" where
  "in_flight s k =
     count_list (map job_Index (jobs s)) k + sum_list (map (holds_index k) (workers s)) +
     count_list (map res_Index (results s)) k + written s k"

text \<open>How the flags and the slices follow the position of main.\<close>

definition control_inv :: "program \<Rightarrow> state \<Rightarrow> bool" where
  "control_inv p s \<longleftrightarrow>
     dispatched p s \<le> frame_count p \<and>
     (case main s of AtAcquire i \<Rightarrow> i < frame_count p | AtSend i _ \<Rightarrow> i < frame_count p
      | _ \<Rightarrow> True) \<and>
     (jobs_closed s \<longleftrightarrow> \<not> in_loop (main s)) \<and>
     (if in_loop (main s) \<or> main s = AtStartCollector
      then writes s = [] \<and> prerendered s = [] \<and> collector s = CNotStarted
      else length (writes s) = frame_count p \<and> length (prerendered s) = frame_count p \<and>
           collector s \<noteq> CNotStarted) \<and>
     (results_closed s \<longleftrightarrow> past_wait (main s) \<and> main s \<noteq> AtCloseResults) \<and>
     length (workers s) = numWorkers p"

text \<open>The wait group counts the workers that have not returned; one returns only when
  the job queue is closed and empty, and main passes the wait only when all have.\<close>

definition workers_inv :: "state \<Rightarrow> bool" where
  "workers_inv s \<longleftrightarrow>
     wg s = length (filter (\<lambda>w. w \<noteq> WDone) (workers s)) \<and>
     (WDone \<in> set (workers s) \<longrightarrow> jobs_closed s \<and> jobs s = []) \<and>
     (past_wait (main s) \<longrightarrow> wg s = 0)"

definition collected_inv :: "program \<Rightarrow> state \<Rightarrow> bool" where
  "collected_inv p s \<longleftrightarrow>
     (\<forall>k. in_flight s k = (if k < dispatched p s then 1 else 0)) \<and>
     (\<forall>k<length (prerendered s). prerendered s ! k = None \<longleftrightarrow> written s k = 0) \<and>
     (collector s = CDone \<longrightarrow> results s = [] \<and> results_closed s)"

definition pipeline_inv :: "program \<Rightarrow> state \<Rightarrow> bool" where
  "pipeline_inv p s \<longleftrightarrow> control_inv p s \<and> workers_inv s \<and> collected_inv p s"


lemma In_rect_Intersect: "In_rect p (Intersect r s) \<longleftrightarrow> In_rect p r \<and> In_rect p s"
  by (auto simp: In_rect_def Intersect_def Empty_rect_def Let_def)

lemma canvas_of_NewRGBA: "canvas_of g (NewRGBA (gif_Width g) (gif_Height g))"
  by (simp add: canvas_of_def NewRGBA_def)

lemma canvas_of_drawFillTransparent: "canvas_of g c \<Longrightarrow> canvas_of g (drawFillTransparent c r)"
  by (simp add: canvas_of_def drawFillTransparent_def Let_def)

lemma canvas_of_drawOver: "canvas_of g c \<Longrightarrow> canvas_of g (drawOver c f)"
  by (simp add: canvas_of_def drawOver_def Let_def)

lemma canvas_of_drawCopySrc: "canvas_of g c \<Longrightarrow> canvas_of g (drawCopySrc c r s sp)"
  by (simp add: canvas_of_def drawCopySrc_def Let_def)

lemma pixel_of_in_Rect:
  assumes "canvas_of g c" "i < length (Pix c)"
  shows "In_rect (pixel_of c i) (Rect c)"
proof -
  let ?w = "gif_Width g" and ?h = "gif_Height g"
  from assms have len: "i < 4 * ?w * ?h" and st: "Stride c = 4 * int ?w"
    and rc: "Rect c = Rect_of 0 0 (int ?w) (int ?h)"
    by (simp_all add: canvas_of_def)
  from len have wpos: "0 < ?w" by (cases "?w = 0") auto
  have "i div (4 * ?w) < ?h"
    using len by (simp add: less_mult_imp_div_less mult.commute)
  moreover have "(i mod (4 * ?w)) div 4 < ?w"
    using wpos by (simp add: less_mult_imp_div_less mult.commute)
  moreover have "int i div (4 * int ?w) = int (i div (4 * ?w))"
    by (simp add: zdiv_int)
  moreover have "(int i mod (4 * int ?w)) div 4 = int ((i mod (4 * ?w)) div 4)"
    by (simp add: zdiv_int zmod_int)
  ultimately show ?thesis
    by (simp add: pixel_of_def In_rect_def st rc Rect_of_def)
qed


lemma PixOffset_pixel_of:
  assumes "canvas_of g c" "canvas_of g s" "i < length (Pix c)"
  shows "nat (PixOffset s (fst (pixel_of c i)) (snd (pixel_of c i)) + int (i mod 4)) = i"
proof -
  let ?w = "gif_Width g" and ?h = "gif_Height g"
  from assms have st: "Stride c = 4 * int ?w" "Stride s = 4 * int ?w"
    and rc: "Rect c = Rect_of 0 0 (int ?w) (int ?h)" "Rect s = Rect_of 0 0 (int ?w) (int ?h)"
    by (simp_all add: canvas_of_def)
  have a: "int i div (4 * int ?w) = int (i div (4 * ?w))"
    by (simp add: zdiv_int)
  have b: "(int i mod (4 * int ?w)) div 4 = int ((i mod (4 * ?w)) div 4)"
    by (simp add: zdiv_int zmod_int)
  have m4: "(i mod (4 * ?w)) mod 4 = i mod 4"
    by (simp add: mod_mod_cancel)
  have "(i mod (4 * ?w)) div 4 * 4 + i mod 4 = i mod (4 * ?w)"
    using div_mult_mod_eq [of "i mod (4 * ?w)" 4] by (simp only: m4)
  then have "i div (4 * ?w) * (4 * ?w) + ((i mod (4 * ?w)) div 4 * 4 + i mod 4) = i"
    by (simp only: div_mult_mod_eq)
  then have "int (i div (4 * ?w)) * (4 * int ?w) + int ((i mod (4 * ?w)) div 4) * 4 + int (i mod 4) = int i"
    by (metis (no_types, opaque_lifting) add.assoc of_nat_add of_nat_mult of_nat_numeral)
  then show ?thesis
    by (simp add: PixOffset_def pixel_of_def st rc Rect_of_def a b)
qed

lemma drawCopySrc_whole:
  assumes "canvas_of g c" "canvas_of g s"
  shows "Pix (drawCopySrc c (Rect c) s (0, 0)) = Pix s"
proof (rule nth_equalityI)
  from assms show len: "length (Pix (drawCopySrc c (Rect c) s (0, 0))) = length (Pix s)"
    by (simp add: drawCopySrc_def Let_def canvas_of_def)
  fix i assume "i < length (Pix (drawCopySrc c (Rect c) s (0, 0)))"
  then have i: "i < length (Pix c)"
    by (simp add: drawCopySrc_def Let_def)
  from assms have rc: "Rect c = Rect_of 0 0 (int (gif_Width g)) (int (gif_Height g))"
    "Rect s = Rect c"
    by (simp_all add: canvas_of_def)
  have mins: "MinX (Rect c) = 0" "MinY (Rect c) = 0"
    by (simp_all add: rc Rect_of_def)
  have "In_rect (pixel_of c i) (Rect c)"
    using assms(1) i by (rule pixel_of_in_Rect)
  then have "In_rect (pixel_of c i) (Intersect (Intersect (Rect c) (Rect c)) (Rect c))"
    by (simp add: In_rect_Intersect)
  moreover have "nat (PixOffset s (fst (pixel_of c i)) (snd (pixel_of c i)) + int (i mod 4)) = i"
    using assms i by (rule PixOffset_pixel_of)
  ultimately show "Pix (drawCopySrc c (Rect c) s (0, 0)) ! i = Pix s ! i"
    using i by (simp add: drawCopySrc_def Let_def mins rc(2) In_rect_Intersect) (simp add: In_rect_def mins)
qed

lemma pixel_of_PixOffset:
  assumes "canvas_of g c" "In_rect (x, y) (Rect c)" "k < 4"
  shows "pixel_of c (nat (PixOffset c x y + int k)) = (x, y)"
    and "nat (PixOffset c x y + int k) < length (Pix c)"
proof -
  let ?w = "gif_Width g" and ?h = "gif_Height g"
  from assms have st: "Stride c = 4 * int ?w" and len: "length (Pix c) = 4 * ?w * ?h"
    and rc: "Rect c = Rect_of 0 0 (int ?w) (int ?h)"
    by (simp_all add: canvas_of_def)
  from assms(2) have x: "0 \<le> x" "x < int ?w" and y: "0 \<le> y" "y < int ?h"
    by (simp_all add: In_rect_def rc Rect_of_def)
  define r where "r = 4 * x + int k"
  have r: "0 \<le> r" "r < 4 * int ?w"
    using x assms(3) by (simp_all add: r_def)
  have off: "PixOffset c x y + int k = y * (4 * int ?w) + r"
    by (simp add: PixOffset_def st rc Rect_of_def r_def)
  have d: "(y * (4 * int ?w) + r) div (4 * int ?w) = y"
    using r by (simp add: div_pos_pos_trivial)
  have m0: "r mod (4 * int ?w) = r"
    using r by (simp add: mod_pos_pos_trivial)
  have m: "(y * (4 * int ?w) + r) mod (4 * int ?w) = r"
    using m0 by simp
  have rd: "r div 4 = x"
    using assms(3) by (simp add: r_def)
  have nn: "0 \<le> y * (4 * int ?w) + r"
    using y r by simp
  show "pixel_of c (nat (PixOffset c x y + int k)) = (x, y)"
    using nn by (simp add: pixel_of_def off st rc Rect_of_def d m m0 rd del: of_nat_mult)
  have "y * (4 * int ?w) + r < int ?h * (4 * int ?w)"
  proof -
    have "y + 1 \<le> int ?h" using y by simp
    then have "(y + 1) * (4 * int ?w) \<le> int ?h * (4 * int ?w)"
      by (rule mult_right_mono) simp
    then show ?thesis using r by (simp add: algebra_simps)
  qed
  then have "y * (4 * int ?w) + r < int (4 * ?w * ?h)"
    by (simp add: algebra_simps)
  then have "nat (y * (4 * int ?w) + r) < 4 * ?w * ?h"
    using nn by (simp only: nat_less_iff)
  then show "nat (PixOffset c x y + int k) < length (Pix c)"
    by (simp only: off len)
qed


lemma dispose_init:
  "\<exists>st'. dispose g compositor_init = Inr st' \<and> ready g st'"
  by (simp add: dispose_def compositor_init_def ready_def Let_def canvas_of_NewRGBA
      canvas_of_drawFillTransparent)

lemma dispose_ready:
  assumes "ready g st"
  shows "\<exists>st'. dispose g st = Inr st' \<and> ready g st' \<and> snapshot st' = snapshot st"
  using assms
  by (auto simp: dispose_def ready_def canvas_of_drawFillTransparent canvas_of_drawCopySrc
      split: option.splits)

lemma take_snapshot_ready:
  assumes "ready g st"
  shows "\<exists>st'. take_snapshot d st = Inr st' \<and> ready g st' \<and> fullFrame st' = fullFrame st \<and>
           lastDisposal st' = lastDisposal st \<and> lastBounds st' = lastBounds st"
  using assms
  by (auto simp: take_snapshot_def ready_def canvas_of_def copy_slice_def split: option.splits)

lemma composite_ready:
  assumes "ready g st"
  shows "\<exists>st'. composite f d st = Inr st' \<and> ready g st' \<and> lastDisposal st' = uint d \<and>
           lastBounds st' = Bounds f \<and> snapshot st' = snapshot st"
  using assms
  by (auto simp: composite_def ready_def canvas_of_drawOver split: option.splits)

lemma compose_frame_ready:
  assumes "st = compositor_init \<or> ready g st" "i < length (gif_Image g)"
    "i < length (gif_Disposal g)"
  shows "\<exists>st'. compose_frame g i st = Inr st' \<and> ready g st' \<and>
           lastDisposal st' = uint (gif_Disposal g ! i) \<and> lastBounds st' = Bounds (gif_Image g ! i)"
proof -
  from assms(1) obtain st1 where 1: "dispose g st = Inr st1" "ready g st1"
    using dispose_init dispose_ready by blast
  from take_snapshot_ready [OF 1(2)] obtain st2 where
    2: "take_snapshot (gif_Disposal g ! i) st1 = Inr st2" "ready g st2"
    by blast
  from composite_ready [OF 2(2)] obtain st3 where
    3: "composite (gif_Image g ! i) (gif_Disposal g ! i) st2 = Inr st3" "ready g st3"
      "lastDisposal st3 = uint (gif_Disposal g ! i)" "lastBounds st3 = Bounds (gif_Image g ! i)"
    by blast
  show ?thesis
    using assms(2,3) 1 2 3 by (simp add: compose_frame_def before_composite_def)
qed

lemma compose_upto_ready:
  assumes "k \<le> length (gif_Image g)" "k \<le> length (gif_Disposal g)"
  shows "\<exists>st. compose_upto g k = Inr st \<and>
           (if k = 0 then st = compositor_init
            else ready g st \<and> lastDisposal st = uint (gif_Disposal g ! (k - 1)) \<and>
                 lastBounds st = Bounds (gif_Image g ! (k - 1)))"
  using assms
proof (induction k)
  case 0
  show ?case by simp
next
  case (Suc k)
  then obtain st where st: "compose_upto g k = Inr st" "st = compositor_init \<or> ready g st"
    by (fastforce split: if_splits)
  from Suc.prems have "k < length (gif_Image g)" "k < length (gif_Disposal g)"
    by simp_all
  from compose_frame_ready [OF st(2) this] st(1) show ?case
    by simp
qed

lemma drawFillTransparent_nth:
  assumes "canvas_of g c" "j < length (Pix c)"
  shows "Pix (drawFillTransparent c r) ! j = (if In_rect (pixel_of c j) r then 0 else Pix c ! j)"
  using assms pixel_of_in_Rect [OF assms]
  by (simp add: drawFillTransparent_def Let_def In_rect_Intersect)

lemma drawOver_nth_outside:
  assumes "j < length (Pix c)" "\<not> In_rect (pixel_of c j) (Bounds f)"
  shows "Pix (drawOver c f) ! j = Pix c ! j"
  using assms by (simp add: drawOver_def Let_def In_rect_Intersect)

lemma pixel_of_cong:
  "canvas_of g c \<Longrightarrow> canvas_of g c' \<Longrightarrow> pixel_of c j = pixel_of c' j"
  by (simp add: pixel_of_def canvas_of_def)


lemma copy_slice_same_length: "length dst = length src \<Longrightarrow> copy_slice dst src = src"
  by (simp add: copy_slice_def)

text \<open>
  Claim C1. For a decoded animation (one disposal byte per frame) and a frame index
  \<open>i > 0\<close>, the iteration for frame \<open>i\<close> starts from the state \<open>st\<close> the first \<open>i\<close>
  frames left, applies \<^const>\<open>dispose\<close> to it and only then snapshots and composites
  frame \<open>i\<close>. With \<open>d\<close> the disposal byte of frame \<open>i - 1\<close> and \<open>r\<close> that frame's bounds,
  the disposed canvas \<open>c'\<close> is: the snapshot's bytes if \<open>d\<close> is previous (3); otherwise,
  if \<open>d\<close> is not none (1), the canvas \<open>c\<close> with every byte of every pixel in \<open>r\<close> set to
  zero and every other byte kept; and \<open>c\<close> itself if \<open>d\<close> is none.
\<close>

theorem disposal_applied_before_next_frame:
  assumes "0 < i" "i < length (gif_Image g)" "length (gif_Disposal g) = length (gif_Image g)"
  shows "\<exists>st c s st' c'.
     compose_upto g i = Inr st \<and> fullFrame st = Some c \<and> snapshot st = Some s \<and>
     dispose g st = Inr st' \<and> fullFrame st' = Some c' \<and>
     compose_upto g (Suc i) =
       (case take_snapshot (gif_Disposal g ! i) st' of
          Inl e \<Rightarrow> Inl e
        | Inr st2 \<Rightarrow> composite (gif_Image g ! i) (gif_Disposal g ! i) st2) \<and>
     length (Pix c') = length (Pix c) \<and>
     (let d = uint (gif_Disposal g ! (i - 1)); r = Bounds (gif_Image g ! (i - 1)) in
        if d = DisposalPrevious then Pix c' = Pix s
        else if d \<noteq> DisposalNone then
          (\<forall>j<length (Pix c). Pix c' ! j = (if In_rect (pixel_of c j) r then 0 else Pix c ! j))
        else c' = c)"
proof -
  from assms have "i \<le> length (gif_Image g)" "i \<le> length (gif_Disposal g)"
    by simp_all
  from compose_upto_ready [OF this] assms(1) obtain st where
    st: "compose_upto g i = Inr st" "ready g st"
      "lastDisposal st = uint (gif_Disposal g ! (i - 1))"
      "lastBounds st = Bounds (gif_Image g ! (i - 1))"
    by auto
  from st(2) obtain c s where
    cs: "fullFrame st = Some c" "snapshot st = Some s" "canvas_of g c" "canvas_of g s"
    by (auto simp: ready_def split: option.splits)
  from dispose_ready [OF st(2)] obtain st' where st': "dispose g st = Inr st'" "ready g st'"
    by blast
  then obtain c' where c': "fullFrame st' = Some c'" "canvas_of g c'"
    by (auto simp: ready_def split: option.splits)
  have next_frame: "compose_upto g (Suc i) =
       (case take_snapshot (gif_Disposal g ! i) st' of
          Inl e \<Rightarrow> Inl e
        | Inr st2 \<Rightarrow> composite (gif_Image g ! i) (gif_Disposal g ! i) st2)"
    using assms st(1) st'(1) by (simp add: compose_frame_def before_composite_def)
  have len: "length (Pix c') = length (Pix c)"
    using cs(3) c'(2) by (simp add: canvas_of_def)
  have eff0: "if lastDisposal st = DisposalPrevious then Pix c' = Pix s
        else if lastDisposal st \<noteq> DisposalNone then
          (\<forall>j<length (Pix c). Pix c' ! j =
             (if In_rect (pixel_of c j) (lastBounds st) then 0 else Pix c ! j))
        else c' = c"
  proof -
    consider (prev) "lastDisposal st = DisposalPrevious"
      | (clear) "lastDisposal st \<noteq> DisposalPrevious" "lastDisposal st \<noteq> DisposalNone"
      | (keep) "lastDisposal st \<noteq> DisposalPrevious" "lastDisposal st = DisposalNone"
      by blast
    then show ?thesis
    proof cases
      case prev
      with st'(1) cs c'(1) have "c' = drawCopySrc c (Rect c) s (0, 0)"
        by (auto simp: dispose_def)
      then have "Pix c' = Pix s"
        using drawCopySrc_whole [OF cs(3,4)] by simp
      with prev show ?thesis
        by simp
    next
      case clear
      with st'(1) cs c'(1) have "c' = drawFillTransparent c (lastBounds st)"
        by (auto simp: dispose_def)
      then have "\<forall>j<length (Pix c). Pix c' ! j =
          (if In_rect (pixel_of c j) (lastBounds st) then 0 else Pix c ! j)"
        using drawFillTransparent_nth [OF cs(3)] by simp
      with clear show ?thesis
        by simp
    next
      case keep
      with st'(1) cs c'(1) have "c' = c"
        by (auto simp: dispose_def)
      with keep show ?thesis
        by simp
    qed
  qed
  have eff: "(let d = uint (gif_Disposal g ! (i - 1)); r = Bounds (gif_Image g ! (i - 1)) in
        if d = DisposalPrevious then Pix c' = Pix s
        else if d \<noteq> DisposalNone then
          (\<forall>j<length (Pix c). Pix c' ! j = (if In_rect (pixel_of c j) r then 0 else Pix c ! j))
        else c' = c)"
    using eff0 unfolding Let_def st(3) st(4) .
  from st(1) cs(1,2) st'(1) c'(1) next_frame len eff show ?thesis
    by blast
qed

text \<open>
  Claim C3. If frame \<open>i\<close> has disposal previous and a frame follows it, then the snapshot
  taken immediately before frame \<open>i\<close> is composited (state \<open>b\<close>) holds the bytes of the
  canvas \<open>cb\<close> at that moment, and after the following frame \<open>i + 1\<close> is composited
  every byte of the canvas \<open>ca\<close> that belongs to a pixel outside frame \<open>i + 1\<close>'s bounds
  equals the byte of \<open>cb\<close>.
\<close>

theorem restore_previous_round_trip:
  assumes "Suc i < length (gif_Image g)" "length (gif_Disposal g) = length (gif_Image g)"
    "uint (gif_Disposal g ! i) = DisposalPrevious"
  shows "\<exists>st b cb s st2 ca.
      compose_upto g i = Inr st \<and> before_composite g i st = Inr b \<and>
      fullFrame b = Some cb \<and> snapshot b = Some s \<and> Pix s = Pix cb \<and>
      compose_upto g (Suc i) = composite (gif_Image g ! i) (gif_Disposal g ! i) b \<and>
      compose_upto g (Suc (Suc i)) = Inr st2 \<and> fullFrame st2 = Some ca \<and>
      length (Pix ca) = length (Pix cb) \<and>
      (\<forall>j<length (Pix ca). \<not> In_rect (pixel_of ca j) (Bounds (gif_Image g ! Suc i)) \<longrightarrow>
           Pix ca ! j = Pix cb ! j)"
proof -
  let ?d = "gif_Disposal g ! i" and ?f = "gif_Image g ! i"
  let ?d' = "gif_Disposal g ! Suc i" and ?f' = "gif_Image g ! Suc i"
  from assms have le: "i \<le> length (gif_Image g)" "i \<le> length (gif_Disposal g)"
    and lt: "i < length (gif_Image g)" "i < length (gif_Disposal g)"
    and lt': "Suc i < length (gif_Disposal g)"
    by simp_all
  from compose_upto_ready [OF le] obtain st where
    st: "compose_upto g i = Inr st" "st = compositor_init \<or> ready g st"
    by (auto split: if_splits)
  from st(2) obtain st1 where st1: "dispose g st = Inr st1" "ready g st1"
    using dispose_init dispose_ready by blast
  then obtain cb s0 where
    cb: "fullFrame st1 = Some cb" "snapshot st1 = Some s0" "canvas_of g cb" "canvas_of g s0"
    by (auto simp: ready_def split: option.splits)
  define s where "s = s0\<lparr>Pix := copy_slice (Pix s0) (Pix cb)\<rparr>"
  define b where "b = st1\<lparr>snapshot := Some s\<rparr>"
  have pix_s: "Pix s = Pix cb"
    using cb(3,4) by (simp add: s_def copy_slice_same_length canvas_of_def)
  have can_s: "canvas_of g s"
    using cb(3,4) pix_s by (simp add: canvas_of_def s_def)
  have b: "before_composite g i st = Inr b"
    using lt st1(1) cb(1,2) assms(3) by (simp add: before_composite_def take_snapshot_def b_def s_def)
  have fb: "fullFrame b = Some cb" "snapshot b = Some s"
    using cb(1) by (simp_all add: b_def)
  define st3 where "st3 = b\<lparr>fullFrame := Some (drawOver cb ?f), lastDisposal := uint ?d,
    lastBounds := Bounds ?f\<rparr>"
  have comp: "composite ?f ?d b = Inr st3"
    using fb by (simp add: composite_def st3_def)
  have up1: "compose_upto g (Suc i) = composite ?f ?d b"
    using st(1) lt b by (simp add: compose_frame_def)
  define c4 where "c4 = drawCopySrc (drawOver cb ?f) (Rect (drawOver cb ?f)) s (0, 0)"
  have pix_c4: "Pix c4 = Pix s"
    unfolding c4_def by (rule drawCopySrc_whole [OF canvas_of_drawOver [OF cb(3)] can_s])
  have can_c4: "canvas_of g c4"
    unfolding c4_def by (rule canvas_of_drawCopySrc [OF canvas_of_drawOver [OF cb(3)]])
  define st4 where "st4 = st3\<lparr>fullFrame := Some c4\<rparr>"
  have d4: "dispose g st3 = Inr st4"
    using assms(3) fb by (simp add: dispose_def st3_def st4_def c4_def)
  have "ready g st4"
    using can_c4 can_s fb by (simp add: ready_def st4_def st3_def)
  from take_snapshot_ready [OF this] obtain st5 where
    st5: "take_snapshot ?d' st4 = Inr st5" "fullFrame st5 = Some c4"
    by (auto simp: st4_def)
  define ca where "ca = drawOver c4 ?f'"
  define st6 where "st6 = st5\<lparr>fullFrame := Some ca, lastDisposal := uint ?d',
    lastBounds := Bounds ?f'\<rparr>"
  have "composite ?f' ?d' st5 = Inr st6"
    using st5(2) by (simp add: composite_def st6_def ca_def)
  then have up2: "compose_upto g (Suc (Suc i)) = Inr st6"
    using up1 comp assms(1) lt' d4 st5(1)
    by (simp add: compose_frame_def before_composite_def)
  have f6: "fullFrame st6 = Some ca"
    by (simp add: st6_def)
  have can_ca: "canvas_of g ca"
    unfolding ca_def by (rule canvas_of_drawOver [OF can_c4])
  have len: "length (Pix ca) = length (Pix cb)"
    using can_ca cb(3) by (simp add: canvas_of_def)
  have out: "\<forall>j<length (Pix ca). \<not> In_rect (pixel_of ca j) (Bounds ?f') \<longrightarrow>
           Pix ca ! j = Pix cb ! j"
  proof (intro allI impI)
    fix j assume j: "j < length (Pix ca)" and o: "\<not> In_rect (pixel_of ca j) (Bounds ?f')"
    from j have j4: "j < length (Pix c4)"
      using can_ca can_c4 by (simp add: canvas_of_def)
    from o have "\<not> In_rect (pixel_of c4 j) (Bounds ?f')"
      by (simp add: pixel_of_cong [OF can_ca can_c4])
    with j4 have "Pix ca ! j = Pix c4 ! j"
      unfolding ca_def by (rule drawOver_nth_outside)
    then show "Pix ca ! j = Pix cb ! j"
      by (simp add: pix_c4 pix_s)
  qed
  from st(1) b fb pix_s up1 up2 f6 len out show ?thesis
    by blast
qed

theorem disposal_applied_before_next_frame_witness:
  "(0::nat) < 1 \<and> 1 < length (gif_Image example_gif) \<and>
   length (gif_Disposal example_gif) = length (gif_Image example_gif) \<and>
   (\<exists>st c s st' c'.
     compose_upto example_gif 1 = Inr st \<and> fullFrame st = Some c \<and> snapshot st = Some s \<and>
     dispose example_gif st = Inr st' \<and> fullFrame st' = Some c' \<and>
     compose_upto example_gif (Suc 1) =
       (case take_snapshot (gif_Disposal example_gif ! 1) st' of
          Inl e \<Rightarrow> Inl e
        | Inr st2 \<Rightarrow> composite (gif_Image example_gif ! 1) (gif_Disposal example_gif ! 1) st2) \<and>
     length (Pix c') = length (Pix c) \<and>
     (let d = uint (gif_Disposal example_gif ! (1 - 1));
          r = Bounds (gif_Image example_gif ! (1 - 1)) in
        if d = DisposalPrevious then Pix c' = Pix s
        else if d \<noteq> DisposalNone then
          (\<forall>j<length (Pix c). Pix c' ! j = (if In_rect (pixel_of c j) r then 0 else Pix c ! j))
        else c' = c))"
proof -
  have h: "(0::nat) < 1" "1 < length (gif_Image example_gif)"
    "length (gif_Disposal example_gif) = length (gif_Image example_gif)"
    by (simp_all add: example_gif_def)
  from h disposal_applied_before_next_frame [OF h] show ?thesis
    by (intro conjI)
qed

theorem restore_previous_round_trip_witness:
  "Suc 1 < length (gif_Image example_gif) \<and>
   length (gif_Disposal example_gif) = length (gif_Image example_gif) \<and>
   uint (gif_Disposal example_gif ! 1) = DisposalPrevious \<and>
   (\<exists>st b cb s st2 ca.
      compose_upto example_gif 1 = Inr st \<and> before_composite example_gif 1 st = Inr b \<and>
      fullFrame b = Some cb \<and> snapshot b = Some s \<and> Pix s = Pix cb \<and>
      compose_upto example_gif (Suc 1) =
        composite (gif_Image example_gif ! 1) (gif_Disposal example_gif ! 1) b \<and>
      compose_upto example_gif (Suc (Suc 1)) = Inr st2 \<and> fullFrame st2 = Some ca \<and>
      length (Pix ca) = length (Pix cb) \<and>
      (\<forall>j<length (Pix ca). \<not> In_rect (pixel_of ca j) (Bounds (gif_Image example_gif ! Suc 1)) \<longrightarrow>
           Pix ca ! j = Pix cb ! j))"
proof -
  have h: "Suc 1 < length (gif_Image example_gif)"
    "length (gif_Disposal example_gif) = length (gif_Image example_gif)"
    "uint (gif_Disposal example_gif ! 1) = DisposalPrevious"
    by (simp_all add: example_gif_def DisposalPrevious_def)
  from h restore_previous_round_trip [OF h] show ?thesis
    by (intro conjI)
qed

text \<open>The example animation, composed frame by frame.\<close>

lemma example_canvas_after_frame_0:
  "canvas_after example_gif 1 =
     Inr (Some [255, 0, 0, 255, 255, 0, 0, 255, 0, 0, 0, 0, 0, 0, 0, 0])"
  by code_simp

lemma example_canvas_after_frame_1:
  "canvas_after example_gif 2 =
     Inr (Some [0, 0, 0, 0, 0, 0, 255, 255, 0, 0, 0, 0, 0, 0, 255, 255])"
  by code_simp

lemma example_canvas_after_frame_2:
  "canvas_after example_gif 3 =
     Inr (Some [0, 0, 0, 0, 0, 0, 0, 0, 0, 255, 0, 255, 0, 0, 0, 0])"
  by code_simp

section \<open>Properties of the rounding\<close>


lemma round_even_of_int: "round_even (of_int n) = n"
  by (simp add: round_even_def)

lemma round_even_mono:
  assumes "x \<le> y"
  shows "round_even x \<le> round_even y"
proof (cases "\<lfloor>x\<rfloor> = \<lfloor>y\<rfloor>")
  case True
  with assms show ?thesis
    by (auto simp: round_even_def Let_def)
next
  case False
  with assms have "\<lfloor>x\<rfloor> + 1 \<le> \<lfloor>y\<rfloor>"
    using floor_mono [OF assms] by linarith
  moreover have "round_even x \<le> \<lfloor>x\<rfloor> + 1"
    by (simp add: round_even_def Let_def)
  moreover have "\<lfloor>y\<rfloor> \<le> round_even y"
    by (simp add: round_even_def Let_def)
  ultimately show ?thesis by linarith
qed

lemma ilog2_bounds:
  assumes "0 < x"
  shows "power_int 2 (ilog2 x) \<le> x" and "x < power_int 2 (ilog2 x + 1)"
proof -
  have "power_int 2 (ilog2 x) \<le> x \<and> x < power_int 2 (ilog2 x + 1)"
  proof (cases "1 \<le> x")
    case True
    define n where "n = \<lfloor>x\<rfloor>"
    have n: "0 < n" using True by (simp add: n_def)
    define b where "b = bitlen n"
    have b1: "1 \<le> b" using n bitlen_eq_zero_iff [of n] bitlen_nonneg [of n]
      unfolding b_def by linarith
    from bitlen_bounds [OF n] have lo: "2 ^ nat (b - 1) \<le> n" and hi: "n < 2 ^ nat b"
      by (simp_all add: b_def)
    have e: "ilog2 x = b - 1"
      using True by (simp add: ilog2_def b_def n_def)
    have "(of_int (2 ^ nat (b - 1)) :: rat) \<le> of_int n"
      using lo by (simp only: of_int_le_iff)
    also have "of_int n \<le> x" by (simp add: n_def)
    finally have 1: "power_int 2 (b - 1) \<le> x"
      using b1 by (simp add: power_int_def)
    have "x < of_int (n + 1)" by (simp add: n_def) linarith
    also have "(of_int (n + 1) :: rat) \<le> of_int (2 ^ nat b)"
      using hi by (simp only: of_int_le_iff; simp)
    finally have 2: "x < power_int 2 b"
      using b1 by (simp add: power_int_def)
    from 1 2 show ?thesis by (simp add: e)
  next
    case False
    define y where "y = 1 / x"
    have y1: "1 < y" using False assms by (simp add: y_def)
    define k where "k = \<lceil>y\<rceil> - 1"
    have k: "0 < k" using y1 by (simp add: k_def; linarith)
    have ky: "of_int k < y" "y \<le> of_int k + 1"
      by (simp_all add: k_def; linarith)+
    define b where "b = bitlen k"
    have b1: "1 \<le> b" using k bitlen_eq_zero_iff [of k] bitlen_nonneg [of k]
      unfolding b_def by linarith
    from bitlen_bounds [OF k] have lo: "2 ^ nat (b - 1) \<le> k" and hi: "k < 2 ^ nat b"
      by (simp_all add: b_def)
    have e: "ilog2 x = - b"
      using False by (simp add: ilog2_def b_def k_def y_def)
    have "(of_int (2 ^ nat (b - 1)) :: rat) \<le> of_int k"
      using lo by (simp only: of_int_le_iff)
    then have "(2::rat) ^ nat (b - 1) \<le> of_int k" by simp
    from this ky(1) have ylo: "2 ^ nat (b - 1) < y" by (rule le_less_trans)
    have "(of_int (k + 1) :: rat) \<le> of_int (2 ^ nat b)"
      using hi by (simp only: of_int_le_iff; simp)
    then have "of_int k + 1 \<le> (2::rat) ^ nat b" by simp
    with ky(2) have yhi: "y \<le> 2 ^ nat b" by (rule order_trans)
    have x: "x = 1 / y" by (simp add: y_def)
    have ypos: "0 < y" using y1 by simp
    have 1: "power_int 2 (- b) \<le> x"
      using yhi ypos b1 by (simp add: power_int_def x field_simps)
    have 2: "x < power_int 2 (- b + 1)"
    proof (cases "b = 1")
      case True
      then show ?thesis using y1 ypos by (simp add: x field_simps)
    next
      case False
      with b1 have "- b + 1 < 0" by simp
      moreover have "nat (b - 1) = nat (- (- b + 1))" by simp
      ultimately show ?thesis using ylo ypos
        by (simp add: power_int_def x field_simps)
    qed
    from 1 2 show ?thesis by (simp add: e)
  qed
  then show "power_int 2 (ilog2 x) \<le> x" and "x < power_int 2 (ilog2 x + 1)"
    by simp_all
qed


lemma ulp_pos: "0 < (power_int 2 e :: rat)"
  by (simp add: power_int_def)

lemma ulp_scale: "(power_int 2 (e + k) :: rat) / power_int 2 (e - 52) = power_int 2 (k + 52)"
proof -
  have "(power_int 2 (k + 52) :: rat) * power_int 2 (e - 52) = power_int 2 ((k + 52) + (e - 52))"
    by (rule power_int_add [symmetric]) simp
  also have "(k + 52) + (e - 52) = e + k" by simp
  finally show ?thesis
    using ulp_pos [of "e - 52"] by (simp add: field_simps)
qed

lemma round64_pos_unfold:
  assumes "0 < x"
  shows "round64 x = of_int (round_even (x / power_int 2 (max (ilog2 x) (- 1022) - 52))) *
           power_int 2 (max (ilog2 x) (- 1022) - 52)"
  using assms by (simp add: round64_def Let_def)

lemma round64_upper:
  assumes "0 < x"
  shows "round64 x \<le> power_int 2 (max (ilog2 x) (- 1022) + 1)"
proof -
  define e where "e = max (ilog2 x) (- 1022)"
  define u :: rat where "u = power_int 2 (e - 52)"
  have u: "0 < u" by (simp add: u_def ulp_pos)
  have "x < power_int 2 (ilog2 x + 1)"
    using assms by (rule ilog2_bounds)
  also have "\<dots> \<le> power_int 2 (e + 1)"
    by (rule power_int_increasing) (simp_all add: e_def)
  finally have "x / u \<le> power_int 2 (e + 1) / u"
    using u by (simp add: divide_le_cancel)
  also have "power_int 2 (e + 1) / u = power_int 2 53"
    unfolding u_def by (simp add: ulp_scale)
  also have "\<dots> = of_int (2 ^ 53)" by simp
  finally have "round_even (x / u) \<le> round_even (of_int (2 ^ 53))"
    by (rule round_even_mono)
  then have "round_even (x / u) \<le> 2 ^ 53"
    by (simp only: round_even_of_int)
  then have "(of_int (round_even (x / u)) :: rat) \<le> of_int (2 ^ 53)"
    by (simp only: of_int_le_iff)
  then have "of_int (round_even (x / u)) * u \<le> of_int (2 ^ 53) * u"
    using u by (simp only: mult_le_cancel_right_pos)
  also have "of_int (2 ^ 53) * u = power_int 2 (e + 1)"
    using ulp_scale [of e 1] u unfolding u_def by (simp add: field_simps)
  finally show ?thesis
    using assms by (simp add: round64_pos_unfold e_def u_def)
qed

lemma round64_lower:
  assumes "0 < x" "- 1022 \<le> ilog2 x"
  shows "power_int 2 (ilog2 x) \<le> round64 x"
proof -
  define e where "e = ilog2 x"
  define u :: rat where "u = power_int 2 (e - 52)"
  have u: "0 < u" by (simp add: u_def ulp_pos)
  have m: "max (ilog2 x) (- 1022) = e"
    using assms(2) by (simp add: e_def)
  have "power_int 2 e \<le> x"
    unfolding e_def using assms(1) by (rule ilog2_bounds)
  then have "power_int 2 (e + 0) / u \<le> x / u"
    using u by (simp add: divide_le_cancel)
  moreover have "power_int 2 (e + 0) / u = power_int 2 52"
    unfolding u_def by (simp only: ulp_scale) simp
  moreover have "(power_int 2 52 :: rat) = of_int (2 ^ 52)" by simp
  ultimately have "round_even (of_int (2 ^ 52)) \<le> round_even (x / u)"
    by (intro round_even_mono) simp
  then have "2 ^ 52 \<le> round_even (x / u)"
    by (simp only: round_even_of_int)
  then have "(of_int (2 ^ 52) :: rat) \<le> of_int (round_even (x / u))"
    by (simp only: of_int_le_iff)
  then have "of_int (2 ^ 52) * u \<le> of_int (round_even (x / u)) * u"
    using u by (simp only: mult_le_cancel_right_pos)
  moreover have "of_int (2 ^ 52) * u = power_int 2 e"
    using ulp_scale [of e 0] u unfolding u_def by (simp add: field_simps)
  ultimately have "power_int 2 e \<le> of_int (round_even (x / u)) * u"
    by simp
  moreover have "round64 x = of_int (round_even (x / u)) * u"
    using assms by (simp add: round64_pos_unfold u_def e_def)
  ultimately show ?thesis
    by (simp add: e_def)
qed

lemma ilog2_mono:
  assumes "0 < x" "x \<le> y"
  shows "ilog2 x \<le> ilog2 y"
proof -
  have "power_int 2 (ilog2 x) \<le> x"
    using assms(1) by (rule ilog2_bounds)
  also note assms(2)
  also have "y < power_int 2 (ilog2 y + 1)"
    using assms by (intro ilog2_bounds) simp
  finally have lt: "(power_int 2 (ilog2 x) :: rat) < power_int 2 (ilog2 y + 1)" .
  show ?thesis
  proof (rule ccontr)
    assume "\<not> ilog2 x \<le> ilog2 y"
    then have "ilog2 y + 1 \<le> ilog2 x" by simp
    then have "(power_int 2 (ilog2 y + 1) :: rat) \<le> power_int 2 (ilog2 x)"
      by (rule power_int_increasing) simp
    with lt show False by simp
  qed
qed

lemma round64_nonneg:
  assumes "0 \<le> x"
  shows "0 \<le> round64 x"
proof (cases "x = 0")
  case True
  then show ?thesis by (simp add: round64_def)
next
  case False
  with assms have x: "0 < x" by simp
  have "round_even 0 \<le> round_even (x / power_int 2 (max (ilog2 x) (- 1022) - 52))"
    using x ulp_pos by (intro round_even_mono) simp
  then have "0 \<le> round_even (x / power_int 2 (max (ilog2 x) (- 1022) - 52))"
    using round_even_of_int [of 0] by simp
  then show ?thesis
    using x ulp_pos [of "max (ilog2 x) (- 1022) - 52"]
    by (simp add: round64_pos_unfold)
qed

lemma round64_mono:
  assumes "0 \<le> x" "x \<le> y"
  shows "round64 x \<le> round64 y"
proof (cases "x = 0")
  case True
  then show ?thesis
    using assms round64_nonneg [of y] by (simp add: round64_def)
next
  case False
  with assms have x: "0 < x" and y: "0 < y" by simp_all
  define ex where "ex = max (ilog2 x) (- 1022)"
  define ey where "ey = max (ilog2 y) (- 1022)"
  have le: "ex \<le> ey"
    using ilog2_mono [OF x assms(2)] by (simp add: ex_def ey_def)
  show ?thesis
  proof (cases "ex = ey")
    case True
    define u :: rat where "u = power_int 2 (ex - 52)"
    have u: "0 < u" by (simp add: u_def ulp_pos)
    have "x / u \<le> y / u"
      using assms(2) u by (simp add: divide_le_cancel)
    then have "round_even (x / u) \<le> round_even (y / u)"
      by (rule round_even_mono)
    then have "(of_int (round_even (x / u)) :: rat) \<le> of_int (round_even (y / u))"
      by (simp only: of_int_le_iff)
    then have "of_int (round_even (x / u)) * u \<le> of_int (round_even (y / u)) * u"
      using u by (simp only: mult_le_cancel_right_pos)
    then show ?thesis
      using x y True by (simp add: round64_pos_unfold u_def ex_def ey_def)
  next
    case False
    with le have lt: "ex + 1 \<le> ey" by simp
    then have ey: "ey = ilog2 y" "- 1022 \<le> ilog2 y"
      by (simp_all add: ex_def ey_def)
    have "round64 x \<le> power_int 2 (ex + 1)"
      unfolding ex_def using x by (rule round64_upper)
    also have "\<dots> \<le> power_int 2 ey"
      using lt by (intro power_int_increasing) simp_all
    also have "\<dots> \<le> round64 y"
      unfolding ey(1) using y ey(2) by (rule round64_lower)
    finally show ?thesis .
  qed
qed


lemma round_even_upper: "of_int (round_even z) \<le> z + 1 / 2"
proof -
  define f where "f = \<lfloor>z\<rfloor>"
  have f: "of_int f \<le> z" "z < of_int f + 1"
    unfolding f_def by linarith+
  consider "z - of_int f < 1 / 2" | "1 / 2 < z - of_int f" | "z - of_int f = 1 / 2"
    by linarith
  then show ?thesis
  proof cases
    case 1
    then have "round_even z = f" by (simp add: round_even_def f_def)
    with f show ?thesis by simp
  next
    case 2
    then have "round_even z = f + 1" by (simp add: round_even_def f_def)
    with 2 show ?thesis by simp
  next
    case 3
    then have "round_even z = f \<or> round_even z = f + 1"
      by (simp add: round_even_def f_def Let_def)
    with 3 f show ?thesis by auto
  qed
qed

lemma ilog2_lower:
  assumes "power_int 2 k \<le> x"
  shows "k \<le> ilog2 x"
proof (rule ccontr)
  assume "\<not> k \<le> ilog2 x"
  then have "ilog2 x + 1 \<le> k" by simp
  then have "(power_int 2 (ilog2 x + 1) :: rat) \<le> power_int 2 k"
    by (rule power_int_increasing) simp
  moreover have "0 < x"
    by (rule less_le_trans [OF ulp_pos assms])
  then have "x < power_int 2 (ilog2 x + 1)"
    by (rule ilog2_bounds)
  ultimately show False using assms by simp
qed

lemma overflow_iff_ilog2:
  assumes "0 < r"
  shows "2 ^ 1024 \<le> r \<longleftrightarrow> 1024 \<le> ilog2 r"
proof
  assume "2 ^ 1024 \<le> r"
  then have "power_int 2 1024 \<le> r" by simp
  then show "1024 \<le> ilog2 r" by (rule ilog2_lower)
next
  assume "1024 \<le> ilog2 r"
  then have "(power_int 2 1024 :: rat) \<le> power_int 2 (ilog2 r)"
    by (rule power_int_increasing) simp
  also have "\<dots> \<le> r" using assms by (rule ilog2_bounds)
  finally show "2 ^ 1024 \<le> r" by simp
qed

lemma to_float64_code [code]:
  "to_float64 x =
     (let r = round64 x
      in if r = 0 then Finite 0
         else if 1024 \<le> ilog2 \<bar>r\<bar> then (if 0 < r then PosInf else NegInf)
         else Finite r)"
proof -
  define r where "r = round64 x"
  consider "r = 0" | "0 < r" | "r < 0" by linarith
  then show ?thesis
  proof cases
    case 1
    then show ?thesis by (simp add: to_float64_def Let_def flip: r_def)
  next
    case 2
    with overflow_iff_ilog2 [of r] show ?thesis
      by (simp add: to_float64_def Let_def flip: r_def)
  next
    case 3
    then have "0 < - r" by simp
    from overflow_iff_ilog2 [OF this] 3 show ?thesis
      by (simp add: to_float64_def Let_def flip: r_def) linarith
  qed
qed


lemma round64_rel_upper:
  assumes "power_int 2 (- 1022) \<le> x"
  shows "round64 x \<le> x * (1 + 1 / 2 ^ 53)"
proof -
  have x: "0 < x"
    by (rule less_le_trans [OF ulp_pos assms])
  define e where "e = ilog2 x"
  have e: "- 1022 \<le> e"
    unfolding e_def using assms by (rule ilog2_lower)
  define u :: rat where "u = power_int 2 (e - 52)"
  have u: "0 < u" by (simp add: u_def ulp_pos)
  have r: "round64 x = of_int (round_even (x / u)) * u"
    using x e by (simp add: round64_pos_unfold u_def e_def)
  have "of_int (round_even (x / u)) * u \<le> (x / u + 1 / 2) * u"
    using u round_even_upper [of "x / u"] by (simp only: mult_le_cancel_right_pos)
  also have "\<dots> = x + u / 2"
    using u by (simp add: field_simps)
  finally have 1: "round64 x \<le> x + u / 2"
    by (simp only: r)
  have "u = power_int 2 e / 2 ^ 52"
    unfolding u_def by (simp add: power_int_diff)
  moreover have "power_int 2 e \<le> x"
    unfolding e_def using x by (rule ilog2_bounds)
  ultimately have "u \<le> x / 2 ^ 52"
    by (simp add: divide_right_mono)
  with 1 have "round64 x \<le> x + x / 2 ^ 52 / 2"
    by simp
  also have "\<dots> = x * (1 + 1 / 2 ^ 53)"
    by (simp add: field_simps)
  finally show ?thesis .
qed

lemma round64_of_int:
  assumes "0 \<le> n" "n < 2 ^ 53"
  shows "round64 (of_int n) = of_int n"
proof (cases "n = 0")
  case True
  then show ?thesis by (simp add: round64_def)
next
  case False
  with assms have n: "0 < n" by simp
  define x :: rat where "x = of_int n"
  have x: "0 < x" "1 \<le> x" using n by (simp_all add: x_def)
  define e where "e = ilog2 x"
  have e0: "0 \<le> e"
    unfolding e_def by (rule ilog2_lower) (use x in simp)
  have e52: "e \<le> 52"
  proof (rule ccontr)
    assume "\<not> e \<le> 52"
    then have "53 \<le> e" by simp
    then have "(power_int 2 53 :: rat) \<le> power_int 2 e"
      by (rule power_int_increasing) simp
    also have "power_int 2 e \<le> x"
      unfolding e_def using x(1) by (rule ilog2_bounds)
    finally have "(of_int (2 ^ 53) :: rat) \<le> of_int n"
      by (simp add: x_def)
    then have "2 ^ 53 \<le> n" by (simp only: of_int_le_iff)
    with assms(2) show False by simp
  qed
  define k where "k = nat (52 - e)"
  have u: "(power_int 2 (e - 52) :: rat) = 1 / 2 ^ k"
    using e52 by (simp add: k_def power_int_def) (metis inverse_eq_divide minus_diff_eq power_inverse)
  have "x / (1 / 2 ^ k) = of_int (n * 2 ^ k)"
    by (simp add: x_def)
  then have "round_even (x / (1 / 2 ^ k)) = n * 2 ^ k"
    by (simp only: round_even_of_int)
  then have "round64 x = of_int (n * 2 ^ k) * (1 / 2 ^ k)"
    using x(1) e0 by (simp add: round64_pos_unfold u flip: e_def)
  then show ?thesis
    by (simp add: x_def)
qed


lemma to_float64_Finite:
  assumes "0 \<le> round64 x" "round64 x < 2 ^ 1024"
  shows "to_float64 x = Finite (round64 x)"
  using assms by (simp add: to_float64_def Let_def)

lemma float64_of_int_exact:
  assumes "0 \<le> n" "n < 2 ^ 31"
  shows "float64_of_int n = Finite (of_int n)"
proof -
  have "n < 2 ^ 53" using assms(2) by simp
  with assms(1) have r: "round64 (of_int n) = of_int n" by (rule round64_of_int)
  have "(of_int n :: rat) < of_int (2 ^ 31)" using assms(2) by (simp only: of_int_less_iff)
  then have "(of_int n :: rat) < 2 ^ 1024" by simp
  then show ?thesis
    unfolding float64_of_int_def using assms(1) by (subst to_float64_Finite) (simp_all add: r)
qed

lemma sample_coord_range:
  assumes "0 < extent" "extent < 2 ^ 31" "0 < target" "target < 2 ^ 31" "0 \<le> i" "i < target"
  shows "\<exists>p. sample_coord extent target i = Some p \<and> 0 \<le> p \<and> p < extent"
proof -
  define E :: rat where "E = of_int extent"
  define T :: rat where "T = of_int target"
  define I :: rat where "I = of_int i"
  define d :: rat where "d = 1 + 1 / 2 ^ 53"
  have rat_le: "a \<le> b \<Longrightarrow> (of_int a :: rat) \<le> of_int b" for a b :: int
    by (simp only: of_int_le_iff)
  have E: "1 \<le> E" "E < 2 ^ 31"
    using rat_le [of 1 extent] rat_le [of "extent" "2 ^ 31 - 1"] assms(1,2) by (simp_all add: E_def)
  have T: "1 \<le> T" "T < 2 ^ 31"
    using rat_le [of 1 target] rat_le [of "target" "2 ^ 31 - 1"] assms(3,4) by (simp_all add: T_def)
  have I: "0 \<le> I" "I \<le> T - 1"
    using rat_le [of 0 i] rat_le [of i "target - 1"] assms(5,6) by (simp_all add: I_def T_def)
  define q where "q = E / T"
  have qlo: "power_int 2 (- 31) \<le> q"
  proof -
    have "1 / 2 ^ 31 \<le> 1 / T" using T by (simp add: field_simps)
    also have "1 / T \<le> E / T" using E T by (simp add: divide_right_mono)
    finally show ?thesis by (simp add: q_def power_int_minus_divide)
  qed
  have qpos: "0 < q" using E T by (simp add: q_def)
  have qhi: "q \<le> E" using E T by (simp add: q_def field_simps mult_mono)
  have norm: "(power_int 2 (- 1022) :: rat) \<le> power_int 2 (- 31)"
    by (rule power_int_increasing) simp_all
  define s where "s = round64 q"
  have e31: "- 31 \<le> ilog2 q" using qlo by (rule ilog2_lower)
  have "(power_int 2 (- 31) :: rat) \<le> power_int 2 (ilog2 q)"
    using e31 by (rule power_int_increasing) simp
  also have "\<dots> \<le> s"
    unfolding s_def using qpos e31 by (intro round64_lower) simp_all
  finally have slo: "power_int 2 (- 31) \<le> s" .
  have spos: "0 < s" by (rule less_le_trans [OF ulp_pos slo])
  have "s \<le> round64 E"
    unfolding s_def using qpos qhi by (intro round64_mono) simp_all
  also have "round64 E = E"
    unfolding E_def using assms(1,2) by (intro round64_of_int) simp_all
  finally have shi: "s \<le> E" .
  have srel: "s \<le> q * d"
    unfolding s_def d_def using order_trans [OF norm qlo] by (rule round64_rel_upper)
  have fe: "float64_of_int extent = Finite E" and ft: "float64_of_int target = Finite T"
    and fi: "float64_of_int i = Finite I"
    using assms by (simp_all add: float64_of_int_exact E_def T_def I_def)
  have scale: "fdiv (float64_of_int extent) (float64_of_int target) = Finite s"
  proof -
    have "to_float64 q = Finite s"
      unfolding s_def using spos shi E by (intro to_float64_Finite) (simp_all add: s_def)
    then show ?thesis
      using T by (simp add: fe ft q_def)
  qed
  define v where "v = round64 (I * s)"
  have v0: "0 \<le> v"
    unfolding v_def using I spos by (intro round64_nonneg) simp
  have vhi: "v < E"
  proof (cases "I = 0")
    case True
    then show ?thesis using E by (simp add: v_def round64_def)
  next
    case False
    then have "i \<noteq> 0" by (simp add: I_def)
    with assms(5) have I1: "1 \<le> I"
      using rat_le [of 1 i] by (simp add: I_def)
    have "s \<le> I * s" using I1 spos by simp
    with slo norm have "power_int 2 (- 1022) \<le> I * s" by linarith
    then have "v \<le> I * s * d"
      unfolding v_def d_def by (rule round64_rel_upper)
    also have "I * s * d \<le> (T - 1) * (q * d) * d"
      using I srel spos by (intro mult_right_mono mult_mono) (simp_all add: d_def)
    also have "\<dots> = E * ((T - 1) * d * d / T)"
      by (simp add: q_def)
    also have "\<dots> < E * 1"
    proof -
      have "(T - 1) * (d * d) < T"
        using T unfolding d_def by (simp add: field_simps)
      then have "(T - 1) * d * d / T < 1"
        using T by (simp add: field_simps)
      with E show ?thesis by (intro mult_strict_left_mono) simp_all
    qed
    finally show ?thesis by simp
  qed
  have prod: "fmul (float64_of_int i) (Finite s) = Finite v"
  proof -
    have "v < 2 ^ 1024" using vhi E by simp
    with v0 have "to_float64 (I * s) = Finite v"
      unfolding v_def by (intro to_float64_Finite)
    then show ?thesis by (simp add: fi)
  qed
  have fl: "0 \<le> \<lfloor>v\<rfloor>" "\<lfloor>v\<rfloor> < extent"
    using v0 vhi by (simp_all add: E_def floor_less_iff)
  moreover have "v < 9223372036854775808"
    using vhi E by simp
  ultimately have "int_of_float64 (Finite v) = Some \<lfloor>v\<rfloor>"
    using v0 by (simp add: int_of_float64_def Let_def)
  with fl show ?thesis
    by (simp add: sample_coord_def scale prod)
qed


lemma round_even_lower: "z - 1 / 2 \<le> of_int (round_even z)"
proof -
  define f where "f = \<lfloor>z\<rfloor>"
  have f: "of_int f \<le> z" "z < of_int f + 1"
    unfolding f_def by linarith+
  consider "z - of_int f < 1 / 2" | "1 / 2 < z - of_int f" | "z - of_int f = 1 / 2"
    by linarith
  then show ?thesis
  proof cases
    case 1
    then have "round_even z = f" by (simp add: round_even_def f_def)
    with 1 show ?thesis by simp
  next
    case 2
    then have "round_even z = f + 1" by (simp add: round_even_def f_def)
    with f show ?thesis by simp
  next
    case 3
    then have "round_even z = f \<or> round_even z = f + 1"
      by (simp add: round_even_def f_def Let_def)
    with 3 f show ?thesis by auto
  qed
qed

lemma round64_abs_error:
  assumes "0 \<le> x" "x < 2 ^ 9"
  shows "\<bar>round64 x - x\<bar> \<le> 1 / 2 ^ 45"
proof (cases "x = 0")
  case True
  then show ?thesis by (simp add: round64_def)
next
  case False
  with assms have x: "0 < x" by simp
  define e where "e = max (ilog2 x) (- 1022)"
  define u :: rat where "u = power_int 2 (e - 52)"
  have u: "0 < u" by (simp add: u_def ulp_pos)
  have "ilog2 x \<le> 8"
  proof (rule ccontr)
    assume "\<not> ilog2 x \<le> 8"
    then have "9 \<le> ilog2 x" by simp
    then have "(power_int 2 9 :: rat) \<le> power_int 2 (ilog2 x)"
      by (rule power_int_increasing) simp
    also have "\<dots> \<le> x" using x by (rule ilog2_bounds)
    finally show False using assms(2) by simp
  qed
  then have "e - 52 \<le> - 44" by (simp add: e_def)
  then have "u \<le> power_int 2 (- 44)"
    unfolding u_def by (rule power_int_increasing) simp
  then have u44: "u \<le> 1 / 2 ^ 44" by (simp add: power_int_minus_divide)
  define z where "z = x / u"
  have r: "round64 x = of_int (round_even z) * u"
    using x by (simp add: round64_pos_unfold e_def u_def z_def)
  have xz: "x = z * u" using u by (simp add: z_def)
  have "\<bar>of_int (round_even z) - z\<bar> \<le> 1 / 2"
    using round_even_lower [of z] round_even_upper [of z] by linarith
  then have "\<bar>of_int (round_even z) - z\<bar> * u \<le> 1 / 2 * u"
    using u by (simp only: mult_le_cancel_right_pos)
  moreover have "\<bar>round64 x - x\<bar> = \<bar>of_int (round_even z) - z\<bar> * u"
  proof -
    have "round64 x - x = (of_int (round_even z) - z) * u"
      by (simp add: r left_diff_distrib flip: xz)
    then show ?thesis
      using u by (simp add: abs_mult)
  qed
  ultimately have "\<bar>round64 x - x\<bar> \<le> 1 / 2 * u" by simp
  with u44 show ?thesis by simp
qed


section \<open>Properties of the glyph mapper\<close>


lemma to_float64_bounded:
  assumes "0 \<le> x" "x \<le> y" "round64 y = Y" "Y < 2 ^ 1024"
  shows "\<exists>q. to_float64 x = Finite q \<and> 0 \<le> q \<and> q \<le> Y \<and> q = round64 x"
proof -
  have 0: "0 \<le> round64 x" using assms(1) by (rule round64_nonneg)
  have 1: "round64 x \<le> Y" using round64_mono [OF assms(1,2)] assms(3) by simp
  with assms(4) have "round64 x < 2 ^ 1024" by simp
  with 0 have "to_float64 x = Finite (round64 x)" by (rule to_float64_Finite)
  with 0 1 show ?thesis by simp
qed

lemma byte_range: "0 \<le> (unsigned (v :: byte) :: rat)" "(unsigned (v :: byte) :: rat) \<le> 255"
proof -
  have "uint v < 2 ^ 8" using uint_bounded [of v] by simp
  then have "uint v \<le> 255" by simp
  then have "(of_int (uint v) :: rat) \<le> of_int 255" by (simp only: of_int_le_iff)
  then show "(unsigned v :: rat) \<le> 255" by simp
  have "(of_int 0 :: rat) \<le> of_int (uint v)" by (simp only: of_int_le_iff) simp
  then show "0 \<le> (unsigned v :: rat)" by simp
qed

lemma float64_of_byte_exact:
  "float64_of_byte v = Finite (unsigned v)"
proof -
  have "uint v < 2 ^ 8" using uint_bounded [of v] by simp
  then have "uint v < 2 ^ 31" by simp
  then have "float64_of_int (uint v) = Finite (of_int (uint v))"
    by (intro float64_of_int_exact) simp_all
  then show ?thesis
    by (simp add: float64_of_byte_def)
qed

lemma coefficient_values:
  "to_float64 (2126 / 10000) = Finite (1914930561557935 / 9007199254740992)"
  "to_float64 (7152 / 10000) = Finite (6441948906990757 / 9007199254740992)"
  "to_float64 (722 / 10000) = Finite (5202558289538397 / 72057594037927936)"
  by code_simp+

lemma product_bounds:
  "round64 (1914930561557935 / 9007199254740992 * 255) = 7629801456207397 / 140737488355328"
  "round64 (6441948906990757 / 9007199254740992 * 255) = 802098130509103 / 4398046511104"
  "round64 (5202558289538397 / 72057594037927936 * 255) = 323889737263743 / 17592186044416"
  "round64 (7629801456207397 / 140737488355328 + 802098130509103 / 4398046511104) =
     8324235408124673 / 35184372088832"
  "round64 (8324235408124673 / 35184372088832 + 323889737263743 / 17592186044416) =
     8972014882652159 / 35184372088832"
  "round64 255 = 255"
  by code_simp+

lemma coefficient_errors:
  "\<bar>1914930561557935 / 9007199254740992 - 2126 / 10000 :: rat\<bar> \<le> 1 / 2 ^ 54"
  "\<bar>6441948906990757 / 9007199254740992 - 7152 / 10000 :: rat\<bar> \<le> 1 / 2 ^ 54"
  "\<bar>5202558289538397 / 72057594037927936 - 722 / 10000 :: rat\<bar> \<le> 1 / 2 ^ 54"
  by simp_all

lemma product_error:
  assumes "0 \<le> v" "v \<le> 255" "0 < k" "k < 1" "\<bar>k - c\<bar> \<le> 1 / 2 ^ 54"
  shows "\<bar>round64 (k * v) - c * v\<bar> \<le> 1 / 2 ^ 45 + 1 / 2 ^ 46"
proof -
  have "k * v \<le> 1 * 255"
    using assms(1-4) by (intro mult_mono) simp_all
  then have "k * v < 2 ^ 9" by simp
  moreover have "0 \<le> k * v" using assms(1,3) by simp
  ultimately have 1: "\<bar>round64 (k * v) - k * v\<bar> \<le> 1 / 2 ^ 45"
    by (intro round64_abs_error)
  have "\<bar>k * v - c * v\<bar> = \<bar>k - c\<bar> * v"
    using assms(1) by (simp add: abs_mult flip: left_diff_distrib)
  also have "\<dots> \<le> 1 / 2 ^ 54 * 255"
    using assms(1,2,5) by (intro mult_mono) simp_all
  also have "\<dots> \<le> 1 / 2 ^ 46" by simp
  finally have 2: "\<bar>k * v - c * v\<bar> \<le> 1 / 2 ^ 46" .
  from 1 2 show ?thesis by linarith
qed

lemma luminance_value:
  "\<exists>l. luminance r g b = Finite l \<and> 0 \<le> l \<and> l \<le> 8972014882652159 / 35184372088832 \<and>
       \<bar>l - exact_luminance r g b\<bar> \<le> 1 / 2 ^ 42"
proof -
  define R :: rat where "R = unsigned r"
  define G :: rat where "G = unsigned g"
  define B :: rat where "B = unsigned b"
  have R: "0 \<le> R" "R \<le> 255" and G: "0 \<le> G" "G \<le> 255" and B: "0 \<le> B" "B \<le> 255"
    by (simp_all add: R_def G_def B_def byte_range)
  let ?k1 = "1914930561557935 / 9007199254740992 :: rat"
  let ?k2 = "6441948906990757 / 9007199254740992 :: rat"
  let ?k3 = "5202558289538397 / 72057594037927936 :: rat"
  from to_float64_bounded [of "?k1 * R" "?k1 * 255", OF _ _ product_bounds(1)] R
  obtain p1 where p1: "to_float64 (?k1 * R) = Finite p1" "0 \<le> p1"
    "p1 \<le> 7629801456207397 / 140737488355328" "p1 = round64 (?k1 * R)"
    by auto
  from to_float64_bounded [of "?k2 * G" "?k2 * 255", OF _ _ product_bounds(2)] G
  obtain p2 where p2: "to_float64 (?k2 * G) = Finite p2" "0 \<le> p2"
    "p2 \<le> 802098130509103 / 4398046511104" "p2 = round64 (?k2 * G)"
    by auto
  from to_float64_bounded [of "?k3 * B" "?k3 * 255", OF _ _ product_bounds(3)] B
  obtain p3 where p3: "to_float64 (?k3 * B) = Finite p3" "0 \<le> p3"
    "p3 \<le> 323889737263743 / 17592186044416" "p3 = round64 (?k3 * B)"
    by auto
  from to_float64_bounded [of "p1 + p2" _, OF _ _ product_bounds(4)] p1(2,3) p2(2,3)
  obtain s where s: "to_float64 (p1 + p2) = Finite s" "0 \<le> s"
    "s \<le> 8324235408124673 / 35184372088832" "s = round64 (p1 + p2)"
    by auto
  from to_float64_bounded [of "s + p3" _, OF _ _ product_bounds(5)] s(2,3) p3(2,3)
  obtain l where l: "to_float64 (s + p3) = Finite l" "0 \<le> l"
    "l \<le> 8972014882652159 / 35184372088832" "l = round64 (s + p3)"
    by auto
  have lum: "luminance r g b = Finite l"
    unfolding luminance_def coefficient_values float64_of_byte_exact
      R_def [symmetric] G_def [symmetric] B_def [symmetric]
    by (simp only: fmul.simps fadd.simps p1(1) p2(1) p3(1) s(1) l(1))
  define a1 where "a1 = 2126 / 10000 * R"
  define a2 where "a2 = 7152 / 10000 * G"
  define a3 where "a3 = 722 / 10000 * B"
  define h :: rat where "h = 1 / 2 ^ 46"
  have e1: "\<bar>p1 - 2126 / 10000 * R\<bar> \<le> 1 / 2 ^ 45 + 1 / 2 ^ 46"
    unfolding p1(4) using R coefficient_errors(1) by (intro product_error) simp_all
  have e2: "\<bar>p2 - 7152 / 10000 * G\<bar> \<le> 1 / 2 ^ 45 + 1 / 2 ^ 46"
    unfolding p2(4) using G coefficient_errors(2) by (intro product_error) simp_all
  have e3: "\<bar>p3 - 722 / 10000 * B\<bar> \<le> 1 / 2 ^ 45 + 1 / 2 ^ 46"
    unfolding p3(4) using B coefficient_errors(3) by (intro product_error) simp_all
  have e4: "\<bar>s - (p1 + p2)\<bar> \<le> 1 / 2 ^ 45"
    unfolding s(4) using p1(2,3) p2(2,3) by (intro round64_abs_error) simp_all
  have e5: "\<bar>l - (s + p3)\<bar> \<le> 1 / 2 ^ 45"
    unfolding l(4) using s(2,3) p3(2,3) by (intro round64_abs_error) simp_all
  have ex: "exact_luminance r g b = 2126 / 10000 * R + 7152 / 10000 * G + 722 / 10000 * B"
    by (simp add: exact_luminance_def R_def G_def B_def field_simps)
  have h: "1 / 2 ^ 45 = 2 * h" "1 / 2 ^ 46 = h" "1 / 2 ^ 42 = 16 * h"
    by (simp_all add: h_def)
  have "\<bar>l - (a1 + a2 + a3)\<bar> \<le> 16 * h"
    using e1 e2 e3 e4 e5 unfolding h a1_def [symmetric] a2_def [symmetric] a3_def [symmetric]
    by linarith
  then have "\<bar>l - exact_luminance r g b\<bar> \<le> 1 / 2 ^ 42"
    unfolding ex h a1_def a2_def a3_def .
  with lum l(2,3) show ?thesis by blast
qed

lemma top_threshold_not_exceeded:
  assumes "at_least (255 / 1000) m" "l \<le> 8972014882652159 / 35184372088832"
  shows "\<not> fgt (Finite l) (fmul (Finite 1000) m)"
proof (cases m)
  case (Finite q)
  with assms(1) have q: "255 / 1000 \<le> q" by (simp add: at_least_def)
  then have "255 \<le> 1000 * q" by simp
  then have "round64 255 \<le> round64 (1000 * q)"
    by (intro round64_mono) simp_all
  then have t: "255 \<le> round64 (1000 * q)"
    by (simp only: product_bounds)
  have "l < 255" using assms(2) by simp
  with t show ?thesis
    by (simp add: Finite to_float64_def Let_def)
next
  case PosInf
  then show ?thesis by simp
next
  case NegInf
  with assms(1) show ?thesis by (simp add: at_least_def)
next
  case NaN
  with assms(1) show ?thesis by (simp add: at_least_def)
qed

lemma glyphs_not_space:
  "glyph_dot \<noteq> glyph_space" "glyph_dotted_circle \<noteq> glyph_space" "glyph_star \<noteq> glyph_space"
  "glyph_black_circle \<noteq> glyph_space" "glyph_circled_white_bullet \<noteq> glyph_space"
  "glyph_circled_bullet \<noteq> glyph_space" "glyph_large_circle \<noteq> glyph_space"
  by (simp_all add: glyph_dot_def glyph_space_def glyph_dotted_circle_def glyph_star_def
      glyph_black_circle_def glyph_circled_white_bullet_def glyph_circled_bullet_def
      glyph_large_circle_def)

text \<open>
  Claim C10. For every pixel and every multiplier that is at least 0.255 (a finite value not
  below it, or plus infinity; the default 1.2 is one), \<^const>\<open>pixelToASCII\<close> does not return
  the space: the luminance is a finite value of at most 255, the top threshold
  \<open>1000 * multiplier\<close> rounds to at least 255, so the first case of the switch never
  holds and the result is one of the seven other glyphs.
\<close>

theorem never_space_glyph:
  assumes "at_least (255 / 1000) multiplier"
  shows "pixelToASCII r g b multiplier \<noteq> glyph_space \<and>
         pixelToASCII r g b multiplier \<in>
           {glyph_dot, glyph_dotted_circle, glyph_star, glyph_black_circle,
            glyph_circled_white_bullet, glyph_circled_bullet, glyph_large_circle} \<and>
         (\<exists>l. luminance r g b = Finite l \<and> l \<le> 255) \<and>
         \<not> fgt (luminance r g b) (fmul (Finite 1000) multiplier)"
proof -
  from luminance_value [of r g b] obtain l where
    l: "luminance r g b = Finite l" "l \<le> 8972014882652159 / 35184372088832"
    by blast
  have top: "\<not> fgt (luminance r g b) (fmul (Finite 1000) multiplier)"
    unfolding l(1) using assms l(2) by (rule top_threshold_not_exceeded)
  then have mem: "pixelToASCII r g b multiplier \<in>
           {glyph_dot, glyph_dotted_circle, glyph_star, glyph_black_circle,
            glyph_circled_white_bullet, glyph_circled_bullet, glyph_large_circle}"
    by (simp add: pixelToASCII_def Let_def)
  then have "pixelToASCII r g b multiplier \<noteq> glyph_space"
    using glyphs_not_space by auto
  moreover have "l \<le> 255" using l(2) by simp
  ultimately show ?thesis using mem top l(1) by blast
qed

lemma default_multiplier: "to_float64 (12 / 10) = Finite (5404319552844595 / 4503599627370496)"
  by code_simp

theorem never_space_glyph_witness:
  "at_least (255 / 1000) (to_float64 (12 / 10)) \<and>
   pixelToASCII 255 255 255 (to_float64 (12 / 10)) \<noteq> glyph_space \<and>
   pixelToASCII 255 255 255 (to_float64 (12 / 10)) \<in>
     {glyph_dot, glyph_dotted_circle, glyph_star, glyph_black_circle,
      glyph_circled_white_bullet, glyph_circled_bullet, glyph_large_circle} \<and>
   (\<exists>l. luminance 255 255 255 = Finite l \<and> l \<le> 255) \<and>
   \<not> fgt (luminance 255 255 255) (fmul (Finite 1000) (to_float64 (12 / 10)))"
proof -
  have h: "at_least (255 / 1000) (to_float64 (12 / 10))"
    unfolding default_multiplier by (simp add: at_least_def)
  from h never_space_glyph [OF h, of 255 255 255] show ?thesis
    by (intro conjI) blast+
qed

lemma glyphs_distinct:
  "distinct (darkest_glyph # map snd glyph_ramp)"
  by (simp add: glyph_ramp_def darkest_glyph_def glyph_dot_def glyph_space_def
      glyph_dotted_circle_def glyph_star_def glyph_black_circle_def
      glyph_circled_white_bullet_def glyph_circled_bullet_def glyph_large_circle_def)

lemma pixelToASCII_ramp: "pixelToASCII r g b m = ramp_glyph (luminance r g b) m"
  by (simp add: pixelToASCII_def ramp_glyph_def glyph_ramp_def darkest_glyph_def Let_def)

text \<open>
  Claim C4, with the ramp counted as the code has it. For every pixel and every
  multiplier, the glyph \<^const>\<open>pixelToASCII\<close> returns is the one the ramp gives for the
  computed luminance. The ramp has seven thresholds, 30, 60, 120, 140, 180, 250 and 1000
  in increasing order, each multiplied by the multiplier, and eight distinct glyphs,
  darkest first and the space last: one for each threshold, chosen when it is the last
  threshold the luminance exceeds, and the darkest, chosen when the luminance exceeds
  none. The luminance computed in float64 is finite and within \<open>2^-42\<close> of
  \<open>0.2126 R + 0.7152 G + 0.0722 B\<close>. The result depends on the four arguments only: equal
  arguments give equal glyphs.
\<close>

theorem glyph_mapper_ramp:
  "pixelToASCII r g b m = ramp_glyph (luminance r g b) m \<and>
   (\<exists>l. luminance r g b = Finite l \<and> \<bar>l - exact_luminance r g b\<bar> \<le> 1 / 2 ^ 42) \<and>
   map fst glyph_ramp = [30, 60, 120, 140, 180, 250, 1000] \<and>
   length (map fst glyph_ramp) = 7 \<and>
   length (darkest_glyph # map snd glyph_ramp) = 8 \<and>
   distinct (darkest_glyph # map snd glyph_ramp) \<and>
   sorted (map fst glyph_ramp) \<and> distinct (map fst glyph_ramp) \<and>
   snd (last glyph_ramp) = '' '' \<and>
   (\<forall>r' g' b' m'. r' = r \<and> g' = g \<and> b' = b \<and> m' = m \<longrightarrow>
      pixelToASCII r' g' b' m' = pixelToASCII r g b m)"
proof -
  from luminance_value [of r g b]
  have "\<exists>l. luminance r g b = Finite l \<and> \<bar>l - exact_luminance r g b\<bar> \<le> 1 / 2 ^ 42"
    by blast
  moreover have "map fst glyph_ramp = [30, 60, 120, 140, 180, 250, 1000]"
    "length (map fst glyph_ramp) = 7"
    "length (darkest_glyph # map snd glyph_ramp) = 8"
    "sorted (map fst glyph_ramp)" "distinct (map fst glyph_ramp)" "snd (last glyph_ramp) = '' ''"
    by (simp_all add: glyph_ramp_def glyph_space_def)
  ultimately show ?thesis
    using pixelToASCII_ramp [of r g b m] glyphs_distinct by blast
qed

text \<open>
  The ramp does not have eight thresholds. At the multiplier \<open>1/8\<close> the grey pixels of
  the levels 0, 4, 8, 16, 18, 23, 32 and 126 get the eight glyphs of the ramp in turn:
  eight bands of luminance, which the seven thresholds of the seven comparisons of lines
  279-291 separate.
\<close>

lemma grey_luminance:
  "luminance 0 0 0 = Finite 0" "luminance 4 4 4 = Finite 4" "luminance 8 8 8 = Finite 8"
  "luminance 16 16 16 = Finite 16"
  "luminance 18 18 18 = Finite (5066549580791809 / 281474976710656)"
  "luminance 23 23 23 = Finite 23" "luminance 32 32 32 = Finite 32"
  "luminance 126 126 126 = Finite (8866461766385663 / 70368744177664)"
  by code_simp+

lemma thresholds_at_an_eighth:
  "fmul (Finite 1000) (Finite (1 / 8)) = Finite 125"
  "fmul (Finite 250) (Finite (1 / 8)) = Finite (125 / 4)"
  "fmul (Finite 180) (Finite (1 / 8)) = Finite (45 / 2)"
  "fmul (Finite 140) (Finite (1 / 8)) = Finite (35 / 2)"
  "fmul (Finite 120) (Finite (1 / 8)) = Finite 15"
  "fmul (Finite 60) (Finite (1 / 8)) = Finite (15 / 2)"
  "fmul (Finite 30) (Finite (1 / 8)) = Finite (15 / 4)"
  by code_simp+

theorem glyph_mapper_ramp_counterexample:
  "[pixelToASCII 0 0 0 (Finite (1 / 8)), pixelToASCII 4 4 4 (Finite (1 / 8)),
    pixelToASCII 8 8 8 (Finite (1 / 8)), pixelToASCII 16 16 16 (Finite (1 / 8)),
    pixelToASCII 18 18 18 (Finite (1 / 8)), pixelToASCII 23 23 23 (Finite (1 / 8)),
    pixelToASCII 32 32 32 (Finite (1 / 8)), pixelToASCII 126 126 126 (Finite (1 / 8))] =
     darkest_glyph # map snd glyph_ramp \<and>
   length (map fst glyph_ramp) = 7 \<and> length (map fst glyph_ramp) \<noteq> 8"
  unfolding pixelToASCII_def Let_def grey_luminance thresholds_at_an_eighth
  by (simp add: glyph_ramp_def darkest_glyph_def)

lemma white_pixel_glyph:
  "pixelToASCII 255 255 255 (to_float64 (12 / 10)) = [CHR 0xE2, CHR 0x97, CHR 0x8C]"
  by code_simp

theorem glyph_mapper_ramp_witness:
  "pixelToASCII 255 255 255 (to_float64 (12 / 10)) =
     ramp_glyph (luminance 255 255 255) (to_float64 (12 / 10)) \<and>
   ramp_glyph (luminance 255 255 255) (to_float64 (12 / 10)) = [CHR 0xE2, CHR 0x97, CHR 0x8C] \<and>
   (\<exists>l. luminance 255 255 255 = Finite l \<and> \<bar>l - exact_luminance 255 255 255\<bar> \<le> 1 / 2 ^ 42) \<and>
   map fst glyph_ramp = [30, 60, 120, 140, 180, 250, 1000] \<and>
   length (map fst glyph_ramp) = 7 \<and>
   length (darkest_glyph # map snd glyph_ramp) = 8 \<and>
   distinct (darkest_glyph # map snd glyph_ramp) \<and>
   sorted (map fst glyph_ramp) \<and> distinct (map fst glyph_ramp) \<and>
   snd (last glyph_ramp) = '' '' \<and>
   pixelToASCII (254 + 1) 255 255 (to_float64 (6 / 5)) =
     pixelToASCII 255 255 255 (to_float64 (12 / 10))"
proof -
  note t = glyph_mapper_ramp [of 255 255 255 "to_float64 (12 / 10)"]
  have e: "(254 + 1 :: byte) = 255 \<and> (255 :: byte) = 255 \<and> (255 :: byte) = 255 \<and>
      to_float64 (6 / 5) = to_float64 (12 / 10)"
    by simp
  from t have "pixelToASCII (254 + 1) 255 255 (to_float64 (6 / 5)) =
      pixelToASCII 255 255 255 (to_float64 (12 / 10))"
    using e by blast
  moreover from t have "ramp_glyph (luminance 255 255 255) (to_float64 (12 / 10)) =
      [CHR 0xE2, CHR 0x97, CHR 0x8C]"
    using white_pixel_glyph by simp
  ultimately show ?thesis
    using t by blast
qed

section \<open>Properties of the renderer\<close>

lemma wrap64_id:
  assumes "- (2 ^ 63) \<le> i" "i < 2 ^ 63"
  shows "wrap64 i = i"
proof -
  have "(i + 2 ^ 63) mod 2 ^ 64 = i + 2 ^ 63"
    using assms by (intro mod_pos_pos_trivial) simp_all
  then show ?thesis by (simp add: wrap64_def)
qed

lemma wrap64_high:
  assumes "2 ^ 63 \<le> i" "i < 2 ^ 64"
  shows "wrap64 i < 0"
proof -
  have "(i + 2 ^ 63) mod 2 ^ 64 = (i + 2 ^ 63 - 2 ^ 64) mod 2 ^ 64"
    by (simp only: minus_mod_self2)
  also have "\<dots> = i + 2 ^ 63 - 2 ^ 64"
    using assms by (intro mod_pos_pos_trivial) simp_all
  finally show ?thesis
    using assms by (simp add: wrap64_def)
qed

lemma collect_Inr_nth:
  assumes "collect xs = Inr vs"
  shows "length vs = length xs \<and> (\<forall>i<length xs. xs ! i = Inr (vs ! i))"
  using assms
proof (induction xs arbitrary: vs)
  case Nil
  then show ?case by simp
next
  case (Cons a xs)
  show ?case
  proof (cases a)
    case (Inl e)
    with Cons.prems show ?thesis by simp
  next
    case (Inr v)
    with Cons.prems obtain ws where ws: "collect xs = Inr ws" "vs = v # ws"
      by (cases "collect xs") auto
    from Cons.IH [OF ws(1)] Inr ws(2) show ?thesis
      by (auto simp: nth_Cons split: nat.splits)
  qed
qed


lemma collect_map_Inr:
  assumes "\<forall>x\<in>set xs. \<not> isl (f x)"
  shows "collect (map f xs) = Inr (map (\<lambda>x. projr (f x)) xs)"
  using assms
proof (induction xs)
  case Nil
  show ?case by simp
next
  case (Cons x xs)
  then obtain v where "f x = Inr v"
    by (cases "f x") auto
  with Cons show ?case by simp
qed

lemma image_part_rows:
  assumes "samples_ok img width height colorOutput multiplier" "0 \<le> y" "y < height"
  shows "\<not> isl (image_part img width height colorOutput multiplier y)"
proof -
  from assms(2,3) have "nat y \<in> set [0..<nat height]" by simp
  with assms(1) have
    "list_all (\<lambda>x. \<not> isl (render_cell img width height colorOutput multiplier (int (nat y)) (int x)))
       [0..<nat width]"
    unfolding samples_ok_def list_all_iff by blast
  then have "\<forall>x\<in>set [0..<nat width].
      \<not> isl (render_cell img width height colorOutput multiplier y (int x))"
    using assms(2) by (simp add: list_all_iff)
  from collect_map_Inr [OF this] show ?thesis
    using assms(3) by (simp add: image_part_def)
qed

lemma image_part_padding:
  assumes "0 \<le> width" "width \<le> 2 ^ 48" "height \<le> y"
  shows "image_part img width height colorOutput multiplier y = Inr (replicate (nat width) CHR '' '')"
  using assms by (simp add: image_part_def)

lemma image_part_ok:
  assumes "samples_ok img width height colorOutput multiplier" "0 \<le> width" "width \<le> 2 ^ 48"
    "0 \<le> y"
  shows "\<not> isl (image_part img width height colorOutput multiplier y)"
proof (cases "y < height")
  case True
  with assms show ?thesis by (simp add: image_part_rows)
next
  case False
  with assms show ?thesis by (simp add: image_part_padding)
qed

lemma pixel_offset_in_range:
  assumes "well_formed img" "0 \<le> px" "px < Dx (Rect img)" "0 \<le> py" "py < Dy (Rect img)"
  shows "wrap64 (wrap64 (py * Stride img) + wrap64 (px * 4)) = py * Stride img + px * 4"
    and "0 \<le> py * Stride img + px * 4"
    and "py * Stride img + px * 4 + 3 < int (length (Pix img))"
proof -
  define w where "w = Dx (Rect img)"
  define h where "h = Dy (Rect img)"
  from assms(1) have st: "Stride img = 4 * w" and len: "int (length (Pix img)) = 4 * w * h"
    and w: "0 < w" and small: "4 * w * h < 2 ^ 63"
    by (simp_all add: well_formed_def w_def h_def)
  have a: "0 \<le> py * (4 * w)" "0 \<le> px * 4"
    using assms(2,4) w by simp_all
  have "py + 1 \<le> h" using assms(5) by (simp add: h_def)
  then have "(py + 1) * (4 * w) \<le> h * (4 * w)"
    using w by (intro mult_right_mono) simp_all
  moreover have "px * 4 + 3 < 4 * w"
    using assms(3) by (simp add: w_def)
  ultimately have hi: "py * (4 * w) + px * 4 + 3 < 4 * w * h"
    by (simp add: algebra_simps)
  from a hi small have top: "py * (4 * w) + px * 4 < 2 ^ 63"
    by linarith
  with a have "wrap64 (py * (4 * w)) = py * (4 * w)" "wrap64 (px * 4) = px * 4"
    "wrap64 (py * (4 * w) + px * 4) = py * (4 * w) + px * 4"
    by (intro wrap64_id; linarith)+
  then show "wrap64 (wrap64 (py * Stride img) + wrap64 (px * 4)) = py * Stride img + px * 4"
    by (simp add: st)
  from a show "0 \<le> py * Stride img + px * 4"
    by (simp add: st)
  from hi show "py * Stride img + px * 4 + 3 < int (length (Pix img))"
    by (simp add: st len)
qed

lemma render_cell_ok:
  assumes "well_formed img" "width < 2 ^ 31" "height < 2 ^ 31"
    "0 \<le> x" "x < width" "0 \<le> y" "y < height"
  shows "\<not> isl (render_cell img width height colorOutput multiplier y x)"
proof -
  from assms(1) have d: "0 < Dx (Rect img)" "Dx (Rect img) < 2 ^ 31"
    "0 < Dy (Rect img)" "Dy (Rect img) < 2 ^ 31"
    by (simp_all add: well_formed_def)
  from assms(4,5) have w: "0 < width" by simp
  from assms(6,7) have h: "0 < height" by simp
  from sample_coord_range [OF d(1,2) w assms(2,4,5)] obtain px where
    px: "sample_coord (Dx (Rect img)) width x = Some px" "0 \<le> px" "px < Dx (Rect img)"
    by blast
  from sample_coord_range [OF d(3,4) h assms(3,6,7)] obtain py where
    py: "sample_coord (Dy (Rect img)) height y = Some py" "0 \<le> py" "py < Dy (Rect img)"
    by blast
  note off = pixel_offset_in_range [OF assms(1) px(2,3) py(2,3)]
  from off(2,3)
  obtain c where "read_pixel (Pix img) (py * Stride img + px * 4) = Inr c"
    by (simp add: read_pixel_def)
  then show ?thesis
    by (cases c) (simp add: render_cell_def px(1) py(1) off(1))
qed

lemma samples_ok_well_formed:
  assumes "well_formed img" "width < 2 ^ 31" "height < 2 ^ 31"
  shows "samples_ok img width height colorOutput multiplier"
  unfolding samples_ok_def list_all_iff
proof (intro ballI)
  fix y x assume "y \<in> set [0..<nat height]" "x \<in> set [0..<nat width]"
  then have "0 \<le> int x" "int x < width" "0 \<le> int y" "int y < height"
    by auto
  with assms show "\<not> isl (render_cell img width height colorOutput multiplier (int y) (int x))"
    by (intro render_cell_ok)
qed

lemma well_formed_canvas_of:
  assumes "canvas_of g c" "0 < gif_Width g" "0 < gif_Height g"
    "gif_Width g < 2 ^ 16" "gif_Height g < 2 ^ 16"
  shows "well_formed c"
proof -
  define w where "w = int (gif_Width g)"
  define h where "h = int (gif_Height g)"
  have "int (gif_Width g) < int (2 ^ 16)" "int (gif_Height g) < int (2 ^ 16)"
    using assms(4,5) by (simp_all only: of_nat_less_iff)
  then have b: "w < 2 ^ 16" "h < 2 ^ 16" "0 < w" "0 < h"
    using assms(2,3) by (simp_all add: w_def h_def)
  then have "w * h < 2 ^ 16 * 2 ^ 16"
    by (intro mult_strict_mono) simp_all
  moreover define a where "a = w * h"
  ultimately have "a < 2 ^ 16 * 2 ^ 16"
    by simp
  then have "4 * a < 2 ^ 63"
    by simp
  then have "4 * w * h < 2 ^ 63"
    by (simp only: a_def mult.assoc)
  with b show ?thesis
    using assms(1)
    by (simp add: canvas_of_def well_formed_def Dx_def Dy_def Rect_of_def w_def h_def)
qed

text \<open>The size of the slice of lines when the sum of line 224 stays in range.\<close>

lemma totalHeight_max:
  assumes "- (2 ^ 63) \<le> offset" "int (length sysInfo) + offset < 2 ^ 63"
  shows "totalHeight height sysInfo offset = max height (int (length sysInfo) + offset)"
proof -
  from assms(1) have "- (2 ^ 63) \<le> int (length sysInfo) + offset" by simp
  from wrap64_id [OF this assms(2)] show ?thesis
    by (simp add: totalHeight_def max_def)
qed

text \<open>The index of line 263 when the row and the offset are what an \<^verbatim>\<open>int\<close> holds.\<close>

lemma overlay_part_index:
  assumes "0 \<le> y" "y < 2 ^ 63" "- (2 ^ 63) \<le> offset" "offset < 2 ^ 63"
    "int (length sysInfo) < 2 ^ 63"
  shows "overlay_part sysInfo offset y =
           (if 0 \<le> y - offset \<and> y - offset < int (length sysInfo)
            then ''   '' @ sysInfo ! nat (y - offset) else [])"
proof (cases "y - offset < 2 ^ 63")
  case True
  moreover from assms(1,4) have "- (2 ^ 63) \<le> y - offset" by simp
  ultimately have "wrap64 (y - offset) = y - offset"
    by (intro wrap64_id)
  then show ?thesis
    by (simp add: overlay_part_def Let_def)
next
  case False
  then have lo: "2 ^ 63 \<le> y - offset" by simp
  moreover from assms(2,3) have "y - offset < 2 ^ 64" by simp
  ultimately have "wrap64 (y - offset) < 0"
    by (intro wrap64_high)
  moreover from lo assms(5) have "\<not> y - offset < int (length sysInfo)" by simp
  ultimately show ?thesis
    by (simp add: overlay_part_def Let_def)
qed

text \<open>What a returned slice of lines holds: one row for each index below the height.\<close>

lemma renderFrame_rows:
  assumes "renderFrame img width height sysInfo colorOutput multiplier offset = Inr lines"
  shows "int (length lines) = totalHeight height sysInfo offset"
    and "y < length lines \<Longrightarrow>
         render_row img width height sysInfo colorOutput multiplier offset (int y) =
           Inr (lines ! y)"
proof -
  define th where "th = totalHeight height sysInfo offset"
  let ?rows = "map (\<lambda>y. render_row img width height sysInfo colorOutput multiplier offset (int y))
                 [0..<nat th]"
  from assms have th0: "0 \<le> th" and c: "collect ?rows = Inr lines"
    by (simp_all add: renderFrame_def Let_def th_def split: if_splits)
  from collect_Inr_nth [OF c] have n: "length lines = nat th"
    and each: "\<forall>i<nat th. ?rows ! i = Inr (lines ! i)"
    by simp_all
  from n th0 show "int (length lines) = totalHeight height sysInfo offset"
    by (simp add: th_def)
  assume "y < length lines"
  with n each show
    "render_row img width height sysInfo colorOutput multiplier offset (int y) = Inr (lines ! y)"
    by simp
qed

text \<open>A row of the picture is the texts of its cells, one after the other.\<close>

lemma image_part_cells:
  assumes "image_part img width height colorOutput multiplier y = Inr s" "y < height"
  shows "\<exists>cells. length cells = nat width \<and> s = concat cells \<and>
           (\<forall>i<nat width.
              render_cell img width height colorOutput multiplier y (int i) = Inr (cells ! i))"
proof -
  let ?cells = "map (\<lambda>x. render_cell img width height colorOutput multiplier y (int x))
                  [0..<nat width]"
  from assms obtain cells where c: "collect ?cells = Inr cells" "s = concat cells"
    by (cases "collect ?cells") (simp_all add: image_part_def)
  from collect_Inr_nth [OF c(1)] have "length cells = nat width"
    "\<forall>i<nat width. ?cells ! i = Inr (cells ! i)"
    by simp_all
  with c(2) show ?thesis by auto
qed

text \<open>The renderer returns on a canvas, a size and an overlay of the kind main gives it.\<close>

lemma renderFrame_returns:
  assumes "0 \<le> width" "width < 2 ^ 31" "0 \<le> height" "height < 2 ^ 31" "well_formed img"
    "- (2 ^ 63) \<le> offset" "int (length sysInfo) + offset \<le> 2 ^ 44"
  shows "renderFrame img width height sysInfo colorOutput multiplier offset =
           Inr (map (\<lambda>y. projr (render_row img width height sysInfo colorOutput multiplier
                                   offset (int y)))
                  [0..<nat (max height (int (length sysInfo) + offset))])"
    and "\<not> isl (image_part img width height colorOutput multiplier (int y))"
proof -
  define m where "m = max height (int (length sysInfo) + offset)"
  from assms(7) have "int (length sysInfo) + offset < 2 ^ 63" by simp
  from totalHeight_max [OF assms(6) this]
  have th: "totalHeight height sysInfo offset = m"
    by (simp add: m_def)
  from assms(3,4,7) have range: "\<not> (m < 0 \<or> 2 ^ 44 < m)"
    by (simp add: m_def)
  have samples: "samples_ok img width height colorOutput multiplier"
    using assms(5,2,4) by (rule samples_ok_well_formed)
  from assms(2) have "width \<le> 2 ^ 48" by simp
  with samples assms(1)
  show ok: "\<not> isl (image_part img width height colorOutput multiplier (int y))" for y
    by (intro image_part_ok) simp_all
  let ?row = "\<lambda>y. render_row img width height sysInfo colorOutput multiplier offset (int y)"
  have "\<forall>y\<in>set [0..<nat m]. \<not> isl (?row y)"
  proof
    fix y
    from ok [of y] show "\<not> isl (?row y)"
      by (cases "image_part img width height colorOutput multiplier (int y)")
        (simp_all add: render_row_def)
  qed
  from collect_map_Inr [OF this]
  have "renderFrame img width height sysInfo colorOutput multiplier offset =
           Inr (map (\<lambda>y. projr (?row y)) [0..<nat m])"
    unfolding renderFrame_def Let_def th if_not_P [OF range] .
  then show "renderFrame img width height sysInfo colorOutput multiplier offset =
           Inr (map (\<lambda>y. projr (?row y)) [0..<nat (max height (int (length sysInfo) + offset))])"
    by (simp only: m_def)
qed

text \<open>
  Claim C8, with the offset bounded as the sizes are. Take a canvas with at least one
  pixel, a target width and height from 0 up to \<open>2^31\<close>, and an overlay and an offset (a
  slice and an \<^verbatim>\<open>int\<close>) whose sum \<open>length sysInfo + offset\<close> is below \<open>2^31\<close> too. Then
  \<^const>\<open>renderFrame\<close> returns (it does not panic; the memory for the lines is taken to be
  there) exactly \<open>max height (length sysInfo + offset)\<close> lines. Line \<open>y\<close> is its image part
  \<open>s\<close>, which for \<open>y \<ge> height\<close> is \<open>width\<close> spaces, followed, when \<open>y - offset\<close> is an index
  of the overlay, by the separator of three spaces and that overlay line.
\<close>

theorem renderFrame_lines:
  assumes "0 \<le> width" "width < 2 ^ 31" "0 \<le> height" "height < 2 ^ 31" "well_formed img"
    "- (2 ^ 63) \<le> offset" "int (length sysInfo) < 2 ^ 63"
    "int (length sysInfo) + offset < 2 ^ 31"
  shows "\<exists>lines. renderFrame img width height sysInfo colorOutput multiplier offset = Inr lines \<and>
     int (length lines) = max height (int (length sysInfo) + offset) \<and>
     (\<forall>y<length lines.
        \<exists>s. image_part img width height colorOutput multiplier (int y) = Inr s \<and>
            (height \<le> int y \<longrightarrow> s = replicate (nat width) CHR '' '') \<and>
            lines ! y =
              (if 0 \<le> int y - offset \<and> int y - offset < int (length sysInfo)
               then s @ ''   '' @ sysInfo ! nat (int y - offset) else s))"
proof -
  define th where "th = max height (int (length sysInfo) + offset)"
  from assms(3,4,8) have th0: "0 \<le> th" and th44: "th \<le> 2 ^ 44"
    by (simp_all add: th_def)
  from assms(8) have off: "offset < 2 ^ 63"
    and sum: "int (length sysInfo) + offset \<le> 2 ^ 44"
    by simp_all
  let ?row = "\<lambda>y. render_row img width height sysInfo colorOutput multiplier offset (int y)"
  note ret = renderFrame_returns [OF assms(1-6) sum, of colorOutput multiplier]
  define lines where "lines = map (\<lambda>y. projr (?row y)) [0..<nat th]"
  have r: "renderFrame img width height sysInfo colorOutput multiplier offset = Inr lines"
    using ret(1) by (simp add: lines_def th_def)
  have len: "int (length lines) = max height (int (length sysInfo) + offset)"
    using th0 by (simp add: lines_def th_def)
  have each: "\<exists>s. image_part img width height colorOutput multiplier (int y) = Inr s \<and>
            (height \<le> int y \<longrightarrow> s = replicate (nat width) CHR '' '') \<and>
            lines ! y =
              (if 0 \<le> int y - offset \<and> int y - offset < int (length sysInfo)
               then s @ ''   '' @ sysInfo ! nat (int y - offset) else s)"
    if y: "y < length lines" for y
  proof -
    from ret(2) [of y] obtain s where
      s: "image_part img width height colorOutput multiplier (int y) = Inr s"
      by (cases "image_part img width height colorOutput multiplier (int y)") auto
    from assms(2) have "width \<le> 2 ^ 48" by simp
    with s assms(1) have pad: "height \<le> int y \<longrightarrow> s = replicate (nat width) CHR '' ''"
      by (auto simp: image_part_padding)
    from y th0 th44 have "int y < 2 ^ 44"
      by (simp add: lines_def)
    then have y63: "int y < 2 ^ 63" by simp
    have "lines ! y = projr (?row y)"
      using y by (simp add: lines_def)
    then have "lines ! y = s @ overlay_part sysInfo offset (int y)"
      by (simp add: render_row_def s)
    also have "overlay_part sysInfo offset (int y) =
        (if 0 \<le> int y - offset \<and> int y - offset < int (length sysInfo)
         then ''   '' @ sysInfo ! nat (int y - offset) else [])"
      using y63 assms(6) off assms(7) by (intro overlay_part_index) simp_all
    finally have "lines ! y =
              (if 0 \<le> int y - offset \<and> int y - offset < int (length sysInfo)
               then s @ ''   '' @ sysInfo ! nat (int y - offset) else s)"
      by simp
    with s pad show ?thesis by blast
  qed
  from r len each show ?thesis by blast
qed

text \<open>
  At the largest offset an \<^verbatim>\<open>int\<close> holds, the sum of line 224 wraps around to a negative
  number and the renderer returns \<open>height\<close> lines, here 2 and not \<open>2^63\<close>, none of them
  with the overlay; at the offset \<open>2^62\<close> the slice of lines cannot be made.
\<close>

theorem renderFrame_lines_counterexample:
  "renderFrame example_canvas 2 2 [''ab''] False (to_float64 (12 / 10)) 9223372036854775807 =
     Inr [glyph_circled_bullet @ reset_space, glyph_dotted_circle @ glyph_large_circle] \<and>
   int (length [glyph_circled_bullet @ reset_space, glyph_dotted_circle @ glyph_large_circle]) \<noteq>
     max 2 (int (length [''ab'']) + 9223372036854775807) \<and>
   renderFrame example_canvas 2 2 [''ab''] False (to_float64 (12 / 10)) 4611686018427387904 =
     Inl (Panic LenOutOfRange)"
  by code_simp

theorem renderFrame_lines_witness:
  "(0::int) \<le> 2 \<and> (2::int) < 2 ^ 31 \<and> (0::int) \<le> 2 \<and> (2::int) < 2 ^ 31 \<and>
   well_formed example_canvas \<and> - (2 ^ 63) \<le> (1::int) \<and>
   int (length [''ab'', ''cd'', ''ef'']) < 2 ^ 63 \<and>
   int (length [''ab'', ''cd'', ''ef'']) + 1 < 2 ^ 31 \<and>
   (\<exists>lines. renderFrame example_canvas 2 2 [''ab'', ''cd'', ''ef''] False (to_float64 (12 / 10)) 1
       = Inr lines \<and>
     int (length lines) = max 2 (int (length [''ab'', ''cd'', ''ef'']) + 1) \<and>
     (\<forall>y<length lines.
        \<exists>s. image_part example_canvas 2 2 False (to_float64 (12 / 10)) (int y) = Inr s \<and>
            (2 \<le> int y \<longrightarrow> s = replicate (nat 2) CHR '' '') \<and>
            lines ! y =
              (if 0 \<le> int y - 1 \<and> int y - 1 < int (length [''ab'', ''cd'', ''ef''])
               then s @ ''   '' @ [''ab'', ''cd'', ''ef''] ! nat (int y - 1) else s)))"
proof -
  have h: "(0::int) \<le> 2" "(2::int) < 2 ^ 31" "well_formed example_canvas"
    "- (2 ^ 63) \<le> (1::int)" "int (length [''ab'', ''cd'', ''ef'']) < 2 ^ 63"
    "int (length [''ab'', ''cd'', ''ef'']) + 1 < 2 ^ 31"
    by (simp_all add: well_formed_def example_canvas_def Dx_def Dy_def Rect_of_def)
  from h renderFrame_lines [OF h(1,2) h(1,2) h(3-6)] show ?thesis
    by (intro conjI)
qed

text \<open>
  Claim C7. Let the pixel sampled for column \<open>x\<close> of row \<open>y\<close> of the picture have alpha 0.
  Whatever its red, green and blue bytes, the multiplier and the colour switch are, in
  every slice of lines \<^const>\<open>renderFrame\<close> returns, line \<open>y\<close> is the texts of the \<open>width\<close>
  cells of the row, one after the other, then the overlay part, and the text of cell \<open>x\<close>
  is the colour reset \<^verbatim>\<open>ESC [0m\<close> followed by one space. The renderer does return such a
  slice when the canvas has at least one pixel and the width, the height and the sum
  \<open>length sysInfo + offset\<close> are below \<open>2^31\<close>.
\<close>

theorem transparent_pixel:
  assumes "0 \<le> x" "x < width" "0 \<le> y" "y < height"
    "sample_coord (Dx (Rect img)) width x = Some px"
    "sample_coord (Dy (Rect img)) height y = Some py"
    "read_pixel (Pix img) (wrap64 (wrap64 (py * Stride img) + wrap64 (px * 4))) =
       Inr (r8, g8, b8, 0)"
  shows "(\<forall>lines. renderFrame img width height sysInfo colorOutput multiplier offset = Inr lines \<longrightarrow>
            nat y < length lines \<and>
            (\<exists>cells. length cells = nat width \<and>
               (\<forall>i<nat width. render_cell img width height colorOutput multiplier y (int i) =
                                 Inr (cells ! i)) \<and>
               cells ! nat x = CHR 0x1B # ''[0m '' \<and>
               lines ! nat y = concat cells @ overlay_part sysInfo offset y)) \<and>
         (well_formed img \<and> width < 2 ^ 31 \<and> height < 2 ^ 31 \<and> - (2 ^ 63) \<le> offset \<and>
          int (length sysInfo) + offset < 2 ^ 31 \<longrightarrow>
            (\<exists>lines. renderFrame img width height sysInfo colorOutput multiplier offset =
                       Inr lines))"
proof (intro conjI allI impI)
  fix lines
  assume r: "renderFrame img width height sysInfo colorOutput multiplier offset = Inr lines"
  have "height \<le> totalHeight height sysInfo offset"
    by (simp add: totalHeight_def)
  with renderFrame_rows(1) [OF r] assms(3,4) show y: "nat y < length lines"
    by simp
  from renderFrame_rows(2) [OF r y] assms(3)
  have "render_row img width height sysInfo colorOutput multiplier offset y = Inr (lines ! nat y)"
    by simp
  then obtain s where s: "image_part img width height colorOutput multiplier y = Inr s"
    "lines ! nat y = s @ overlay_part sysInfo offset y"
    by (cases "image_part img width height colorOutput multiplier y")
      (auto simp: render_row_def)
  from image_part_cells [OF s(1) assms(4)] obtain cells where
    cells: "length cells = nat width" "s = concat cells"
      "\<forall>i<nat width. render_cell img width height colorOutput multiplier y (int i) =
                        Inr (cells ! i)"
    by blast
  from assms(1,2) have "nat x < nat width" by simp
  with cells(3) assms(1)
  have "render_cell img width height colorOutput multiplier y x = Inr (cells ! nat x)"
    by fastforce
  moreover from assms(5-7)
  have "render_cell img width height colorOutput multiplier y x = Inr (CHR 0x1B # ''[0m '')"
    by (simp add: render_cell_def render_pixel_def reset_space_def)
  ultimately have "cells ! nat x = CHR 0x1B # ''[0m ''"
    by simp
  with cells s(2)
  show "\<exists>cells. length cells = nat width \<and>
               (\<forall>i<nat width. render_cell img width height colorOutput multiplier y (int i) =
                                 Inr (cells ! i)) \<and>
               cells ! nat x = CHR 0x1B # ''[0m '' \<and>
               lines ! nat y = concat cells @ overlay_part sysInfo offset y"
    by blast
next
  assume d: "well_formed img \<and> width < 2 ^ 31 \<and> height < 2 ^ 31 \<and> - (2 ^ 63) \<le> offset \<and>
          int (length sysInfo) + offset < 2 ^ 31"
  then have "int (length sysInfo) + offset \<le> 2 ^ 44" by simp
  moreover from assms(1-4) have "0 \<le> width" "0 \<le> height" by simp_all
  ultimately
  have "well_formed img" "width < 2 ^ 31" "height < 2 ^ 31" "- (2 ^ 63) \<le> offset"
    "int (length sysInfo) + offset \<le> 2 ^ 44" "0 \<le> width" "0 \<le> height"
    using d by simp_all
  with renderFrame_returns(1) [of width height img offset sysInfo colorOutput multiplier]
  show "\<exists>lines. renderFrame img width height sysInfo colorOutput multiplier offset = Inr lines"
    by blast
qed

text \<open>
  The example canvas in colour at two columns by two rows: the red, the transparent, the
  white and the black pixel.
\<close>

lemma renderFrame_example:
  "renderFrame example_canvas 2 2 [] True (to_float64 (12 / 10)) 0 =
     Inr [colored 255 0 0 glyph_circled_bullet @ CHR 0x1B # ''[0m '',
          colored 255 255 255 glyph_dotted_circle @ colored 0 0 0 glyph_large_circle]"
  by code_simp

theorem transparent_pixel_witness:
  "(0::int) \<le> 1 \<and> (1::int) < 2 \<and> (0::int) \<le> 0 \<and> (0::int) < 2 \<and>
   sample_coord (Dx (Rect example_canvas)) 2 1 = Some 1 \<and>
   sample_coord (Dy (Rect example_canvas)) 2 0 = Some 0 \<and>
   read_pixel (Pix example_canvas)
     (wrap64 (wrap64 (0 * Stride example_canvas) + wrap64 (1 * 4))) = Inr (9, 9, 9, 0) \<and>
   renderFrame example_canvas 2 2 [] True (to_float64 (12 / 10)) 0 =
     Inr [colored 255 0 0 glyph_circled_bullet @ CHR 0x1B # ''[0m '',
          colored 255 255 255 glyph_dotted_circle @ colored 0 0 0 glyph_large_circle] \<and>
   (\<exists>cells. length cells = nat 2 \<and>
      cells ! nat 1 = CHR 0x1B # ''[0m '' \<and>
      colored 255 0 0 glyph_circled_bullet @ CHR 0x1B # ''[0m '' =
        concat cells @ overlay_part [] 0 0) \<and>
   well_formed example_canvas \<and> (2::int) < 2 ^ 31 \<and> - (2 ^ 63) \<le> (0::int) \<and>
   int (length ([]::string list)) + 0 < 2 ^ 31"
proof -
  have h: "(0::int) \<le> 1" "(1::int) < 2" "(0::int) \<le> 0" "(0::int) < 2"
    by simp_all
  have p: "sample_coord (Dx (Rect example_canvas)) 2 1 = Some 1"
    "sample_coord (Dy (Rect example_canvas)) 2 0 = Some 0"
    "read_pixel (Pix example_canvas)
       (wrap64 (wrap64 (0 * Stride example_canvas) + wrap64 (1 * 4))) = Inr (9, 9, 9, 0)"
    by code_simp+
  have d: "well_formed example_canvas" "(2::int) < 2 ^ 31" "- (2 ^ 63) \<le> (0::int)"
    "int (length ([]::string list)) + 0 < 2 ^ 31"
    by (simp_all add: well_formed_def example_canvas_def Dx_def Dy_def Rect_of_def)
  note t = transparent_pixel [OF h p, of "[]" True "to_float64 (12 / 10)" 0]
  from t renderFrame_example
  have "\<exists>cells. length cells = nat 2 \<and>
      (\<forall>i<nat 2. render_cell example_canvas 2 2 True (to_float64 (12 / 10)) 0 (int i) =
                    Inr (cells ! i)) \<and>
      cells ! nat 1 = CHR 0x1B # ''[0m '' \<and>
      [colored 255 0 0 glyph_circled_bullet @ CHR 0x1B # ''[0m '',
       colored 255 255 255 glyph_dotted_circle @ colored 0 0 0 glyph_large_circle] ! nat 0 =
        concat cells @ overlay_part [] 0 0"
    by blast
  then have "\<exists>cells. length cells = nat 2 \<and>
      cells ! nat 1 = CHR 0x1B # ''[0m '' \<and>
      colored 255 0 0 glyph_circled_bullet @ CHR 0x1B # ''[0m '' =
        concat cells @ overlay_part [] 0 0"
    by auto
  with h p d renderFrame_example show ?thesis
    by (intro conjI)
qed


section \<open>Properties of the playback delay\<close>

text \<open>
  Claim C6, as amended. For every frame rate other than 0 the delay is a whole number \<open>q\<close>
  of milliseconds, the quotient of 1000 by the rate truncated towards zero:
  \<open>|q| * |fps| \<le> 1000 < (|q| + 1) * |fps|\<close>, with the sign of the rate. It is the
  \<open>1000 / fps\<close> milliseconds of the specification exactly when the rate divides 1000.
\<close>

theorem frame_delay_truncated:
  assumes "fps \<noteq> 0"
  shows "\<exists>q. frame_delay fps = Inr (q * 1000000) \<and>
           \<bar>q\<bar> * \<bar>fps\<bar> \<le> 1000 \<and> 1000 < (\<bar>q\<bar> + 1) * \<bar>fps\<bar> \<and>
           (0 < fps \<longrightarrow> 0 \<le> q) \<and> (fps < 0 \<longrightarrow> q \<le> 0) \<and>
           (exact_delay fps (q * 1000000) \<longleftrightarrow> fps dvd 1000)"
proof -
  define n where "n = \<bar>fps\<bar>"
  define k where "k = 1000 div n"
  define q where "q = sgn fps * k"
  have n: "0 < n" using assms by (simp add: n_def)
  have k0: "0 \<le> k" using n by (simp add: k_def pos_imp_zdiv_nonneg_iff)
  have fd: "frame_delay fps = Inr (q * 1000000)"
    using assms by (simp add: frame_delay_def go_quot_def q_def k_def n_def)
  have aq: "\<bar>q\<bar> = k"
    using assms k0 by (simp add: q_def abs_mult abs_sgn_eq)
  have lo: "k * n \<le> 1000"
    using n div_mult_mod_eq [of 1000 n] pos_mod_sign [of n 1000] unfolding k_def by linarith
  have "1000 mod n < n" using n by simp
  then have "1000 < k * n + n"
    using div_mult_mod_eq [of 1000 n] unfolding k_def by linarith
  then have hi: "1000 < (k + 1) * n" by (simp add: algebra_simps)
  have sg: "(0 < fps \<longrightarrow> 0 \<le> q)" "(fps < 0 \<longrightarrow> q \<le> 0)"
    using k0 by (auto simp: q_def mult_nonneg_nonpos2)
  have qf: "q * fps = k * n"
    by (simp add: q_def n_def mult.assoc mult.left_commute [of k] flip: abs_sgn) (simp add: abs_sgn mult.commute)
  have "exact_delay fps (q * 1000000) \<longleftrightarrow> (of_int q :: rat) = 1000 / of_int fps"
    by (simp add: exact_delay_def)
  also have "\<dots> \<longleftrightarrow> (of_int (q * fps) :: rat) = of_int 1000"
    using assms by (simp add: field_simps)
  also have "\<dots> \<longleftrightarrow> q * fps = 1000"
    by (simp only: of_int_eq_iff)
  also have "\<dots> \<longleftrightarrow> 1000 mod n = 0"
    using div_mult_mod_eq [of 1000 n] unfolding qf k_def by linarith
  also have "\<dots> \<longleftrightarrow> n dvd 1000"
    by (simp add: dvd_eq_mod_eq_0)
  also have "\<dots> \<longleftrightarrow> fps dvd 1000"
    by (simp add: n_def)
  finally have ex: "exact_delay fps (q * 1000000) \<longleftrightarrow> fps dvd 1000" .
  from fd lo hi sg ex show ?thesis
    unfolding aq [symmetric] n_def by blast
qed

text \<open>
  At the default rate of 17 frames per second the delay is 58 ms, not \<open>1000 / 17\<close> ms.
\<close>

theorem frame_delay_counterexample:
  "frame_delay 17 = Inr 58000000 \<and> \<not> exact_delay 17 58000000"
  by (simp add: frame_delay_def go_quot_def exact_delay_def)

theorem frame_delay_truncated_witness:
  "(17::int) \<noteq> 0 \<and>
   (\<exists>q. frame_delay 17 = Inr (q * 1000000) \<and>
           \<bar>q\<bar> * \<bar>17\<bar> \<le> 1000 \<and> 1000 < (\<bar>q\<bar> + 1) * \<bar>17\<bar> \<and>
           (0 < (17::int) \<longrightarrow> 0 \<le> q) \<and> ((17::int) < 0 \<longrightarrow> q \<le> 0) \<and>
           (exact_delay 17 (q * 1000000) \<longleftrightarrow> (17::int) dvd 1000))"
proof -
  have h: "(17::int) \<noteq> 0" by simp
  from h frame_delay_truncated [OF h] show ?thesis
    by (intro conjI)
qed

text \<open>A rate of 0 is not rejected: the division panics.\<close>

lemma frame_delay_zero: "frame_delay 0 = Inl DivideByZero"
  by (simp add: frame_delay_def go_quot_def)


section \<open>Properties of the overlay text\<close>

lemma space_width_0: "space_width (c # cs) = 0 \<Longrightarrow> \<not> ascii_space c"
  by (simp add: space_width_def split: if_splits)

lemma Fields_from_chars:
  assumes "\<forall>c\<in>set cur. \<not> ascii_space c"
  shows "\<forall>f\<in>set (Fields_from cur s). f \<noteq> [] \<and> (\<forall>c\<in>set f. \<not> ascii_space c)"
  using assms
proof (induction cur s rule: Fields_from.induct)
  case (1 cur)
  then show ?case by simp
next
  case (2 cur c cs)
  show ?case
  proof (cases "space_width (c # cs) = 0")
    case True
    then have "\<not> ascii_space c" by (rule space_width_0)
    with "2.prems" have "\<forall>x\<in>set (cur @ [c]). \<not> ascii_space x" by simp
    from "2.IH"(1) [OF True this] True show ?thesis by simp
  next
    case False
    have "\<forall>x\<in>set []. \<not> ascii_space x" by simp
    from "2.IH"(2) [OF False this] False "2.prems" show ?thesis by auto
  qed
qed

lemma Fields_chars:
  "f \<in> set (Fields s) \<Longrightarrow> f \<noteq> [] \<and> (\<forall>c\<in>set f. \<not> ascii_space c)"
  using Fields_from_chars [of "[]" s] by (simp add: Fields_def)

lemma Split_nl_nonempty: "Split_nl s \<noteq> []"
  by (induction s) (auto split: list.splits)

lemma Split_nl_append:
  assumes "CHR 0x0A \<notin> set a"
  shows "Split_nl (a @ CHR 0x0A # b) = a # Split_nl b"
  using assms by (induction a) auto

lemma TrimRight_crlf_keep:
  assumes "s \<noteq> []" "last s \<noteq> CHR 0x0D" "last s \<noteq> CHR 0x0A"
  shows "TrimRight_crlf s = s"
proof -
  from assms(1) obtain x xs where r: "rev s = x # xs" by (cases "rev s") auto
  then have "last s = x" using assms(1) by (metis last_rev list.sel(1) rev_rev_ident hd_rev)
  with assms(2,3) r show ?thesis
    by (simp add: TrimRight_crlf_def flip: rev_swap)
qed

lemma TrimRight_crlf_trimmed:
  "TrimRight_crlf s \<noteq> [] \<Longrightarrow>
     last (TrimRight_crlf s) \<noteq> CHR 0x0D \<and> last (TrimRight_crlf s) \<noteq> CHR 0x0A"
proof -
  assume a: "TrimRight_crlf s \<noteq> []"
  define d where "d = dropWhile (\<lambda>c. c = CHR 0x0D \<or> c = CHR 0x0A) (rev s)"
  from a have "d \<noteq> []" by (simp add: TrimRight_crlf_def d_def)
  then have "\<not> (hd d = CHR 0x0D \<or> hd d = CHR 0x0A)"
    unfolding d_def by (rule hd_dropWhile)
  moreover have "last (TrimRight_crlf s) = hd d"
    using \<open>d \<noteq> []\<close> by (simp add: TrimRight_crlf_def last_rev flip: d_def)
  ultimately show ?thesis by simp
qed


lemma Split_nl_no_newline: "l \<in> set (Split_nl s) \<Longrightarrow> CHR 0x0A \<notin> set l"
proof (induction s arbitrary: l)
  case Nil
  then show ?case by simp
next
  case (Cons c cs)
  then show ?case
    by (cases "Split_nl cs") (auto split: if_splits)
qed

lemma set_TrimRight_crlf: "set (TrimRight_crlf s) \<subseteq> set s"
proof -
  have "set (dropWhile (\<lambda>c. c = CHR 0x0D \<or> c = CHR 0x0A) (rev s)) \<subseteq> set (rev s)"
    by (auto dest: set_dropWhileD)
  then show ?thesis by (simp add: TrimRight_crlf_def)
qed

lemma clean_lines_trimmed:
  assumes "l \<in> set (clean_lines s)"
  shows "l \<noteq> [] \<and> last l \<noteq> CHR 0x0D \<and> last l \<noteq> CHR 0x0A \<and> CHR 0x0A \<notin> set l"
proof -
  from assms obtain x where x: "x \<in> set (Split_nl s)" "l = TrimRight_crlf x" "l \<noteq> []"
    by (auto simp: clean_lines_def)
  from x(1) have "CHR 0x0A \<notin> set x" by (rule Split_nl_no_newline)
  with set_TrimRight_crlf [of x] have "CHR 0x0A \<notin> set l" unfolding x(2) by blast
  moreover from x(2,3) TrimRight_crlf_trimmed [of x]
  have "last l \<noteq> CHR 0x0D \<and> last l \<noteq> CHR 0x0A" by simp
  ultimately show ?thesis using x(3) by simp
qed

lemma clean_lines_error_line:
  assumes "p \<noteq> []" "\<forall>c\<in>set p. \<not> ascii_space c"
  shows "clean_lines (''Error running command: '' @ p @ [CHR 0x0A] @ out) =
           (''Error running command: '' @ p) # clean_lines out"
proof -
  let ?e = "''Error running command: '' @ p"
  have nl: "CHR 0x0A \<notin> set ?e"
    using assms(2) by (auto simp: ascii_space_def)
  have sp: "Split_nl (?e @ CHR 0x0A # out) = ?e # Split_nl out"
    using nl by (rule Split_nl_append)
  have "last ?e = last p" using assms(1) by simp
  moreover have "\<not> ascii_space (last p)" using assms by simp
  ultimately have "last ?e \<noteq> CHR 0x0D" "last ?e \<noteq> CHR 0x0A"
    by (auto simp: ascii_space_def)
  then have "TrimRight_crlf ?e = ?e"
    by (intro TrimRight_crlf_keep) simp_all
  with sp show ?thesis
    by (simp add: clean_lines_def)
qed

text \<open>
  Claim C5, as amended. Whatever the command does, \<^const>\<open>getCommandOutputLines\<close> returns a
  list (these functions have no failing branch) of non-empty lines without a newline and
  without a trailing CR or LF, and the program goes on with it. The list is made of the
  text the attempted run gave back: the output of \<^verbatim>\<open>script\<close>, or else of \<^verbatim>\<open>unbuffer\<close>,
  whose error is ignored (so the overlay is empty when the wrapper printed nothing); in
  the fallback, when the command itself fails, the line \<^verbatim>\<open>Error running command: <name>\<close>
  followed by the lines of its output, which is not empty. An empty command line gives
  the empty overlay.
\<close>

theorem overlay_of_command:
  "(\<forall>l\<in>set (getCommandOutputLines env commandLine).
      l \<noteq> [] \<and> last l \<noteq> CHR 0x0D \<and> last l \<noteq> CHR 0x0A \<and> CHR 0x0A \<notin> set l) \<and>
   (Fields commandLine = [] \<longrightarrow> getCommandOutputLines env commandLine = []) \<and>
   (\<forall>p ps. Fields commandLine = p # ps \<longrightarrow>
      (has_script env \<longrightarrow>
         getCommandOutputLines env commandLine =
           clean_lines (fst (run_cmd env ''script''
             ((if is_darwin env then [''-q -c''] else [''-qefc'']) @
              [commandLine @ '' 2>/dev/null'', ''/dev/null''])))) \<and>
      (\<not> has_script env \<and> has_unbuffer env \<longrightarrow>
         getCommandOutputLines env commandLine = clean_lines (fst (run_cmd env ''unbuffer'' (p # ps)))) \<and>
      (\<not> has_script env \<and> \<not> has_unbuffer env \<and> snd (run_cmd env p ps) \<longrightarrow>
         getCommandOutputLines env commandLine =
           (''Error running command: '' @ p) # clean_lines (fst (run_cmd env p ps))) \<and>
      (\<not> has_script env \<and> \<not> has_unbuffer env \<and> \<not> snd (run_cmd env p ps) \<longrightarrow>
         getCommandOutputLines env commandLine = clean_lines (fst (run_cmd env p ps))))"
proof (intro conjI allI impI ballI)
  fix l assume "l \<in> set (getCommandOutputLines env commandLine)"
  then show "l \<noteq> []" "last l \<noteq> CHR 0x0D" "last l \<noteq> CHR 0x0A" "CHR 0x0A \<notin> set l"
    using clean_lines_trimmed [of l "runCommand env commandLine"]
    by (simp_all add: getCommandOutputLines_def)
next
  assume "Fields commandLine = []"
  then show "getCommandOutputLines env commandLine = []"
    by (simp add: getCommandOutputLines_def runCommand_def clean_lines_def TrimRight_crlf_def)
next
  fix p ps assume f: "Fields commandLine = p # ps"
  {
    assume "has_script env"
    with f show "getCommandOutputLines env commandLine =
           clean_lines (fst (run_cmd env ''script''
             ((if is_darwin env then [''-q -c''] else [''-qefc'']) @
              [commandLine @ '' 2>/dev/null'', ''/dev/null''])))"
      by (simp add: getCommandOutputLines_def runCommand_def)
  next
    assume "\<not> has_script env \<and> has_unbuffer env"
    with f show "getCommandOutputLines env commandLine =
        clean_lines (fst (run_cmd env ''unbuffer'' (p # ps)))"
      by (simp add: getCommandOutputLines_def runCommand_def)
  next
    assume a: "\<not> has_script env \<and> \<not> has_unbuffer env \<and> snd (run_cmd env p ps)"
    from f have "p \<in> set (Fields commandLine)" by simp
    then have p: "p \<noteq> []" "\<forall>c\<in>set p. \<not> ascii_space c"
      using Fields_chars by blast+
    from a f have "runCommand env commandLine =
        ''Error running command: '' @ p @ [CHR 0x0A] @ fst (run_cmd env p ps)"
      by (cases "run_cmd env p ps") (simp add: runCommand_def)
    then show "getCommandOutputLines env commandLine =
           (''Error running command: '' @ p) # clean_lines (fst (run_cmd env p ps))"
      using clean_lines_error_line [OF p] by (simp add: getCommandOutputLines_def)
  next
    assume "\<not> has_script env \<and> \<not> has_unbuffer env \<and> \<not> snd (run_cmd env p ps)"
    with f show "getCommandOutputLines env commandLine = clean_lines (fst (run_cmd env p ps))"
      by (cases "run_cmd env p ps") (simp add: getCommandOutputLines_def runCommand_def)
  }
qed

text \<open>
  With neither wrapper installed and the default command missing, the overlay is the one
  line of the error message, not the empty list.
\<close>

theorem overlay_of_command_counterexample:
  "snd (run_cmd bare_system ''fastfetch'' [''--logo-type'', ''none'']) \<and>
   getCommandOutputLines bare_system ''fastfetch --logo-type none'' =
     [''Error running command: fastfetch''] \<and>
   getCommandOutputLines bare_system ''fastfetch --logo-type none'' \<noteq> []"
  by code_simp

lemma Fields_default_command:
  "Fields ''fastfetch --logo-type none'' = [''fastfetch'', ''--logo-type'', ''none'']"
  by code_simp

theorem overlay_of_command_witness:
  "Fields ''fastfetch --logo-type none'' = ''fastfetch'' # [''--logo-type'', ''none''] \<and>
   \<not> has_script bare_system \<and> \<not> has_unbuffer bare_system \<and>
   snd (run_cmd bare_system ''fastfetch'' [''--logo-type'', ''none'']) \<and>
   getCommandOutputLines bare_system ''fastfetch --logo-type none'' =
     (''Error running command: '' @ ''fastfetch'') #
       clean_lines (fst (run_cmd bare_system ''fastfetch'' [''--logo-type'', ''none'']))"
proof -
  have h: "Fields ''fastfetch --logo-type none'' = ''fastfetch'' # [''--logo-type'', ''none'']"
    "\<not> has_script bare_system \<and> \<not> has_unbuffer bare_system \<and>
     snd (run_cmd bare_system ''fastfetch'' [''--logo-type'', ''none''])"
    by (simp_all add: Fields_default_command bare_system_def)
  from overlay_of_command [of bare_system "''fastfetch --logo-type none''"] h
  have "getCommandOutputLines bare_system ''fastfetch --logo-type none'' =
     (''Error running command: '' @ ''fastfetch'') #
       clean_lines (fst (run_cmd bare_system ''fastfetch'' [''--logo-type'', ''none'']))"
    by blast
  with h show ?thesis by blast
qed


section \<open>Properties of the pipeline\<close>


lemma holders_update:
  assumes "w < length ws"
  shows "sum_list (map holds_canvas (ws[w := x])) + holds_canvas (ws ! w) =
           sum_list (map holds_canvas ws) + holds_canvas x"
proof -
  have "holds_canvas (ws ! w) \<in> set (map holds_canvas ws)"
    using assms by simp
  then have "holds_canvas (ws ! w) \<le> sum_list (map holds_canvas ws)"
    by (intro member_le_sum_list) simp_all
  moreover have "sum_list ((map holds_canvas ws)[w := holds_canvas x]) =
      sum_list (map holds_canvas ws) + holds_canvas x - (map holds_canvas ws) ! w"
    using assms by (intro sum_list_update) simp
  ultimately show ?thesis
    using assms by (simp add: map_update)
qed

lemma main_step_pool:
  assumes "main_step p s = Some s'"
  shows "checked_out s' + length (bufferPool s') = checked_out s + length (bufferPool s)"
  using assms
  by (auto simp: main_step_def checked_out_def crash_def Let_def
      split: main_pc.splits list.splits sum.splits option.splits if_splits)

lemma worker_step_pool:
  assumes "worker_step p w s = Some s'"
  shows "checked_out s' + length (bufferPool s') = checked_out s + length (bufferPool s)"
proof -
  from assms have w: "w < length (workers s)"
    by (auto simp: worker_step_def split: if_splits)
  note u = holders_update [OF w]
  show ?thesis
  proof (cases "workers s ! w")
    case WRecv
    with assms w u [of "WDone"] u [of "WSendResult job lines" for job lines] show ?thesis
      by (auto simp: worker_step_def checked_out_def crash_def holds_canvas_def
          split: list.splits sum.splits if_splits)
  next
    case (WSendResult job lines)
    with assms w u [of "WRelease job"] show ?thesis
      by (auto simp: worker_step_def checked_out_def holds_canvas_def split: if_splits)
  next
    case (WRelease job)
    with assms w u [of "WRecv"] show ?thesis
      by (auto simp: worker_step_def checked_out_def holds_canvas_def split: if_splits)
  next
    case WDone
    with assms w show ?thesis by (simp add: worker_step_def)
  qed
qed

lemma collector_step_pool:
  assumes "collector_step s = Some s'"
  shows "checked_out s' + length (bufferPool s') = checked_out s + length (bufferPool s)"
  using assms
  by (auto simp: collector_step_def checked_out_def crash_def
      split: collector_pc.splits list.splits if_splits)

lemma step_pool:
  assumes "step p a s = Some s'"
  shows "checked_out s' + length (bufferPool s') = checked_out s + length (bufferPool s)"
  using assms main_step_pool worker_step_pool collector_step_pool
  by (cases a) (auto simp: step_def split: if_splits)

lemma run_pool:
  assumes "run p sched s = Some s'"
  shows "checked_out s' + length (bufferPool s') = checked_out s + length (bufferPool s)"
  using assms
proof (induction sched arbitrary: s)
  case Nil
  then show ?case by simp
next
  case (Cons a sched)
  then obtain s1 where 1: "step p a s = Some s1" "run p sched s1 = Some s'"
    by (auto split: option.splits)
  from Cons.IH [OF 1(2)] step_pool [OF 1(1)] show ?case by simp
qed

lemma init_pool:
  "length (bufferPool (init p)) = 2 * numWorkers p" "checked_out (init p) = 0"
proof -
  have "sum_list (map holds_canvas (replicate n WRecv)) = 0" for n
    by (induction n) (simp_all add: holds_canvas_def)
  then show "length (bufferPool (init p)) = 2 * numWorkers p" "checked_out (init p) = 0"
    by (simp_all add: init_def checked_out_def)
qed


lemma blocked_acquire:
  assumes "main s = AtAcquire i" "bufferPool s = []"
  shows "step p Main s = None"
  using assms by (simp add: step_def main_step_def)

lemma blocked_until_release:
  assumes "main s = AtAcquire i" "bufferPool s = []" "step p a s = Some s'"
  shows "main s' = AtAcquire i \<and>
         (bufferPool s' \<noteq> [] \<longrightarrow>
            (\<exists>w job. a = Worker w \<and> w < length (workers s) \<and> workers s ! w = WRelease job \<and>
               bufferPool s' = [job_PoolKey job] \<and> step p Main s' \<noteq> None))"
proof (cases a)
  case Main
  with assms blocked_acquire [OF assms(1,2), of p] show ?thesis by simp
next
  case (Worker w)
  with assms(3) have np: "panicked s = None" and ws: "worker_step p w s = Some s'"
    by (auto simp: step_def split: if_splits)
  from ws have w: "w < length (workers s)"
    by (auto simp: worker_step_def split: if_splits)
  show ?thesis
  proof (cases "workers s ! w")
    case WRecv
    with ws w assms(1,2) show ?thesis
      by (auto simp: worker_step_def crash_def split: list.splits sum.splits if_splits)
  next
    case (WSendResult job lines)
    with ws w assms(1,2) show ?thesis
      by (auto simp: worker_step_def split: if_splits)
  next
    case (WRelease job)
    with ws w assms(1,2) np Worker show ?thesis
      by (auto simp: worker_step_def step_def main_step_def split: if_splits)
  next
    case WDone
    with ws w show ?thesis by (simp add: worker_step_def)
  qed
next
  case Collector
  with assms show ?thesis
    by (auto simp: step_def collector_step_def crash_def
        split: collector_pc.splits list.splits if_splits)
qed

text \<open>
  Claim C9. The pool starts with \<open>2 * numWorkers\<close> canvases and none checked out. In every
  state the program reaches, under any schedule, the canvases checked out and those in
  the pool are \<open>2 * numWorkers\<close> together, so at most that many are checked out. When main
  is at the receive from the pool and the pool is empty, main has no step; any step of
  another goroutine leaves it there, and the pool becomes non-empty only by a worker
  giving its canvas back, after which main can step.
\<close>

theorem pool_never_exceeded:
  assumes "run p sched (init p) = Some s"
  shows "length (bufferPool (init p)) = 2 * numWorkers p \<and> checked_out (init p) = 0 \<and>
         checked_out s + length (bufferPool s) = 2 * numWorkers p \<and>
         checked_out s \<le> 2 * numWorkers p \<and>
         (\<forall>i. main s = AtAcquire i \<and> bufferPool s = [] \<longrightarrow>
            step p Main s = None \<and>
            (\<forall>a s'. step p a s = Some s' \<longrightarrow>
               main s' = AtAcquire i \<and>
               (bufferPool s' \<noteq> [] \<longrightarrow>
                  (\<exists>w job. a = Worker w \<and> w < length (workers s) \<and>
                     workers s ! w = WRelease job \<and> bufferPool s' = [job_PoolKey job] \<and>
                     step p Main s' \<noteq> None))))"
proof -
  from run_pool [OF assms] init_pool [of p]
  have inv: "checked_out s + length (bufferPool s) = 2 * numWorkers p"
    by simp
  then have le: "checked_out s \<le> 2 * numWorkers p" by simp
  from inv le init_pool [of p] blocked_acquire [of s _ p] blocked_until_release [of s _ p]
  show ?thesis by blast
qed

text \<open>
  With one worker that never runs, main dispatches two frames and then waits for a canvas.
\<close>

lemma three_frames_blocked:
  "map_option (\<lambda>s. (main s, bufferPool s, checked_out s, step three_frames Main s = None))
     (run three_frames [Main, Main, Main, Main, Main, Main, Main] (init three_frames)) =
   Some (AtAcquire 2, [], 2, True)"
  by code_simp

theorem pool_never_exceeded_witness:
  "\<exists>s. run three_frames [Main, Main, Main, Main, Main, Main, Main] (init three_frames) = Some s \<and>
       main s = AtAcquire 2 \<and> bufferPool s = [] \<and>
       checked_out s + length (bufferPool s) = 2 * numWorkers three_frames \<and>
       checked_out s \<le> 2 * numWorkers three_frames \<and>
       step three_frames Main s = None"
proof -
  from three_frames_blocked obtain s where
    s: "run three_frames [Main, Main, Main, Main, Main, Main, Main] (init three_frames) = Some s"
      "main s = AtAcquire 2" "bufferPool s = []"
    by (cases "run three_frames [Main, Main, Main, Main, Main, Main, Main] (init three_frames)")
      auto
  from pool_never_exceeded [OF s(1)] s show ?thesis
    by blast
qed

text \<open>
  Claim C2 does not hold of the program. Main waits for the workers (\<^verbatim>\<open>wg.Wait()\<close>) and
  closes the result channel, but nothing makes it wait for the goroutine that moves the
  results into \<^verbatim>\<open>prerendered\<close>. Under the schedule \<^const>\<open>collector_late\<close> the playback
  loop is entered while the only result is still in the channel and entry 0 is nil.
\<close>

theorem playback_before_results_collected:
  "map_option observe (run one_frame collector_late (init one_frame)) =
     Some (AtPlayback 0, [None], [0], CRecv, None)"
  by code_simp

subsection \<open>What the collector does guarantee\<close>

text \<open>
  The steps of the three kinds of goroutine, as rules: each lemma lists the ways a step
  can be taken and the state it leaves.
\<close>

lemma main_step_cases:
  assumes "main_step p s = Some s'"
  obtains
    (crashed) e where "s' = s\<lparr>panicked := Some e\<rparr>"
  | (composed) i c where "main s = AtLoop i" "i < frame_count p"
      "s' = s\<lparr>comp := c, main := AtAcquire i\<rparr>"
  | (jobs_closed) i where "main s = AtLoop i" "\<not> i < frame_count p"
      "s' = s\<lparr>jobs_closed := True, main := AtStartCollector\<rparr>"
  | (acquired) i b rest where "main s = AtAcquire i" "bufferPool s = b # rest"
      "s' = s\<lparr>bufferPool := rest, main := AtSend i b\<rparr>"
  | (sent) i b job where "main s = AtSend i b" "length (jobs s) < frame_count p"
      "job_Index job = i" "s' = s\<lparr>jobs := jobs s @ [job], main := AtLoop (i + 1)\<rparr>"
  | (started) "main s = AtStartCollector"
      "s' = s\<lparr>prerendered := replicate (frame_count p) None,
               writes := replicate (frame_count p) 0, collector := CRecv, main := AtWait\<rparr>"
  | (waited) "main s = AtWait" "wg s = 0" "s' = s\<lparr>main := AtCloseResults\<rparr>"
  | (results_closed) "main s = AtCloseResults"
      "s' = s\<lparr>results_closed := True, main := AtFirstFrame\<rparr>"
  | (first_read) f where "main s = AtFirstFrame" "s' = s\<lparr>firstFrame := f, main := AtDelay\<rparr>"
  | (delayed) d where "main s = AtDelay" "s' = s\<lparr>delay := d, main := AtPlayback 0\<rparr>"
  | (played) k k' t where "main s = AtPlayback k" "s' = s\<lparr>terminal := t, main := AtPlayback k'\<rparr>"
  | (idle) k where "main s = AtPlayback k" "s' = s"
proof (cases "main s")
  case (AtLoop i)
  show ?thesis
  proof (cases "i < frame_count p")
    case True
    show ?thesis
    proof (cases "compose_frame (prog_gif p) i (comp s)")
      case (Inl e)
      with assms AtLoop True have "s' = s\<lparr>panicked := Some (Panic e)\<rparr>"
        by (simp add: main_step_def Let_def crash_def frame_count_def)
      then show ?thesis by (rule crashed)
    next
      case (Inr c)
      with assms AtLoop True have "s' = s\<lparr>comp := c, main := AtAcquire i\<rparr>"
        by (simp add: main_step_def Let_def frame_count_def)
      with AtLoop True show ?thesis by (rule composed)
    qed
  next
    case False
    with assms AtLoop have "s' = s\<lparr>jobs_closed := True, main := AtStartCollector\<rparr>"
      by (simp add: main_step_def Let_def frame_count_def)
    with AtLoop False show ?thesis by (rule jobs_closed)
  qed
next
  case (AtAcquire i)
  with assms obtain b rest where "bufferPool s = b # rest"
    "s' = s\<lparr>bufferPool := rest, main := AtSend i b\<rparr>"
    by (cases "bufferPool s") (simp_all add: main_step_def Let_def)
  with AtAcquire show ?thesis by (rule acquired)
next
  case (AtSend i b)
  show ?thesis
  proof (cases "fullFrame (comp s)")
    case None
    with assms AtSend have "s' = s\<lparr>panicked := Some (Panic NilDereference)\<rparr>"
      by (simp add: main_step_def Let_def crash_def)
    then show ?thesis by (rule crashed)
  next
    case (Some ff)
    let ?filled = "b\<lparr>Pix := copy_slice (Pix b) (Pix ff)\<rparr>"
    let ?job = "\<lparr>job_Index = i, job_Image = ?filled, job_PoolKey = ?filled\<rparr>"
    from assms AtSend Some have "length (jobs s) < frame_count p"
      "s' = s\<lparr>jobs := jobs s @ [?job], main := AtLoop (i + 1)\<rparr>"
      by (simp_all add: main_step_def Let_def frame_count_def split: if_splits)
    with AtSend show ?thesis
      by (intro sent [of i b ?job]) simp_all
  qed
next
  case AtStartCollector
  with assms have "s' = s\<lparr>prerendered := replicate (frame_count p) None,
               writes := replicate (frame_count p) 0, collector := CRecv, main := AtWait\<rparr>"
    by (simp add: main_step_def Let_def frame_count_def)
  with AtStartCollector show ?thesis by (rule started)
next
  case AtWait
  with assms have "wg s = 0" "s' = s\<lparr>main := AtCloseResults\<rparr>"
    by (simp_all add: main_step_def Let_def split: if_splits)
  with AtWait show ?thesis by (rule waited)
next
  case AtCloseResults
  with assms have "s' = s\<lparr>results_closed := True, main := AtFirstFrame\<rparr>"
    by (simp add: main_step_def Let_def)
  with AtCloseResults show ?thesis by (rule results_closed)
next
  case AtFirstFrame
  show ?thesis
  proof (cases "prerendered s")
    case Nil
    with assms AtFirstFrame have "s' = s\<lparr>panicked := Some (Panic IndexOutOfRange)\<rparr>"
      by (simp add: main_step_def Let_def crash_def)
    then show ?thesis by (rule crashed)
  next
    case (Cons f rest)
    with assms AtFirstFrame have "s' = s\<lparr>firstFrame := f, main := AtDelay\<rparr>"
      by (simp add: main_step_def Let_def)
    with AtFirstFrame show ?thesis by (rule first_read)
  qed
next
  case AtDelay
  show ?thesis
  proof (cases "frame_delay (FPS (prog_cfg p))")
    case (Inl e)
    with assms AtDelay have "s' = s\<lparr>panicked := Some (Panic e)\<rparr>"
      by (simp add: main_step_def Let_def crash_def)
    then show ?thesis by (rule crashed)
  next
    case (Inr d)
    with assms AtDelay have "s' = s\<lparr>delay := d, main := AtPlayback 0\<rparr>"
      by (simp add: main_step_def Let_def)
    with AtDelay show ?thesis by (rule delayed)
  qed
next
  case (AtPlayback k)
  show ?thesis
  proof (cases "k < length (prerendered s)")
    case True
    with assms AtPlayback have
      "s' = s\<lparr>terminal := terminal s @ write_frame (prerendered s ! k),
               main := AtPlayback (if k + 1 < length (prerendered s) then k + 1 else 0)\<rparr>"
      by (simp add: main_step_def Let_def)
    with AtPlayback show ?thesis by (rule played)
  next
    case False
    with assms AtPlayback have "s' = s"
      by (simp add: main_step_def Let_def)
    with AtPlayback show ?thesis by (rule idle)
  qed
qed

lemma worker_step_cases:
  assumes "worker_step p w s = Some s'"
  obtains
    (crashed) e where "s' = s\<lparr>panicked := Some e\<rparr>"
  | (returned) "w < length (workers s)" "workers s ! w = WRecv" "jobs s = []" "jobs_closed s"
      "s' = s\<lparr>workers := (workers s)[w := WDone], wg := wg s - 1\<rparr>"
  | (rendered) job rest lines where "w < length (workers s)" "workers s ! w = WRecv"
      "jobs s = job # rest"
      "s' = s\<lparr>jobs := rest, workers := (workers s)[w := WSendResult job lines]\<rparr>"
  | (result_sent) job lines where "w < length (workers s)" "workers s ! w = WSendResult job lines"
      "s' = s\<lparr>results := results s @ [\<lparr>res_Index = job_Index job, res_Lines = lines\<rparr>],
               workers := (workers s)[w := WRelease job]\<rparr>"
  | (released) job where "w < length (workers s)" "workers s ! w = WRelease job"
      "s' = s\<lparr>bufferPool := bufferPool s @ [job_PoolKey job],
               workers := (workers s)[w := WRecv]\<rparr>"
proof -
  from assms have w: "w < length (workers s)"
    by (simp add: worker_step_def split: if_splits)
  show ?thesis
  proof (cases "workers s ! w")
    case WRecv
    show ?thesis
    proof (cases "jobs s")
      case Nil
      with assms w WRecv have "jobs_closed s"
        "s' = s\<lparr>workers := (workers s)[w := WDone], wg := wg s - 1\<rparr>"
        by (simp_all add: worker_step_def split: if_splits)
      with w WRecv Nil show ?thesis by (intro returned)
    next
      case (Cons job rest)
      let ?r = "renderFrame (job_Image job) (Width (prog_cfg p)) (Height (prog_cfg p))
                  (prog_sysInfo p) (Color (prog_cfg p)) (prog_multiplier p) (prog_offset p)"
      show ?thesis
      proof (cases ?r)
        case (Inl e)
        with assms w WRecv Cons have "s' = s\<lparr>panicked := Some e\<rparr>"
          by (simp add: worker_step_def crash_def)
        then show ?thesis by (rule crashed)
      next
        case (Inr lines)
        with assms w WRecv Cons have
          "s' = s\<lparr>jobs := rest, workers := (workers s)[w := WSendResult job lines]\<rparr>"
          by (simp add: worker_step_def)
        with w WRecv Cons show ?thesis by (intro rendered)
      qed
    qed
  next
    case (WSendResult job lines)
    with assms w have
      "s' = s\<lparr>results := results s @ [\<lparr>res_Index = job_Index job, res_Lines = lines\<rparr>],
               workers := (workers s)[w := WRelease job]\<rparr>"
      by (simp add: worker_step_def split: if_splits)
    with w WSendResult show ?thesis by (intro result_sent)
  next
    case (WRelease job)
    with assms w have
      "s' = s\<lparr>bufferPool := bufferPool s @ [job_PoolKey job],
               workers := (workers s)[w := WRecv]\<rparr>"
      by (simp add: worker_step_def split: if_splits)
    with w WRelease show ?thesis by (intro released)
  next
    case WDone
    with assms w show ?thesis
      by (simp add: worker_step_def)
  qed
qed

lemma collector_step_cases:
  assumes "collector_step s = Some s'"
  obtains
    (crashed) e where "s' = s\<lparr>panicked := Some e\<rparr>"
  | (finished) "collector s = CRecv" "results s = []" "results_closed s"
      "s' = s\<lparr>collector := CDone\<rparr>"
  | (stored) result rest where "collector s = CRecv" "results s = result # rest"
      "res_Index result < length (prerendered s)"
      "s' = s\<lparr>results := rest,
               prerendered := (prerendered s)[res_Index result := Some (res_Lines result)],
               writes := (writes s)[res_Index result := writes s ! res_Index result + 1]\<rparr>"
proof -
  from assms have c: "collector s = CRecv"
    by (cases "collector s") (simp_all add: collector_step_def)
  show ?thesis
  proof (cases "results s")
    case Nil
    with assms c have "results_closed s" "s' = s\<lparr>collector := CDone\<rparr>"
      by (simp_all add: collector_step_def split: if_splits)
    with c Nil show ?thesis by (intro finished)
  next
    case (Cons result rest)
    show ?thesis
    proof (cases "res_Index result < length (prerendered s)")
      case True
      with assms c Cons have "s' = s\<lparr>results := rest,
               prerendered := (prerendered s)[res_Index result := Some (res_Lines result)],
               writes := (writes s)[res_Index result := writes s ! res_Index result + 1]\<rparr>"
        by (simp add: collector_step_def)
      with c Cons True show ?thesis by (intro stored)
    next
      case False
      with assms c Cons have "s' = s\<lparr>panicked := Some (Panic IndexOutOfRange)\<rparr>"
        by (simp add: collector_step_def crash_def)
      then show ?thesis by (rule crashed)
    qed
  qed
qed


text \<open>
  The position of main determines the flags and the lengths of the slices, under any
  step of any goroutine.
\<close>

lemmas pc_defs = dispatched_def in_loop_def past_wait_def

lemma control_inv_main:
  assumes "main_step p s = Some s'" "control_inv p s"
  shows "control_inv p s'"
  using assms(1)
proof (cases rule: main_step_cases)
  case (crashed e)
  with assms(2) show ?thesis by (simp add: control_inv_def pc_defs)
next
  case (composed i c)
  with assms(2) show ?thesis by (simp add: control_inv_def pc_defs)
next
  case (jobs_closed i)
  with assms(2) show ?thesis by (simp add: control_inv_def pc_defs)
next
  case (acquired i b rest)
  with assms(2) show ?thesis by (simp add: control_inv_def pc_defs)
next
  case (sent i b job)
  with assms(2) show ?thesis by (simp add: control_inv_def pc_defs)
next
  case started
  with assms(2) show ?thesis by (simp add: control_inv_def pc_defs)
next
  case waited
  with assms(2) show ?thesis by (simp add: control_inv_def pc_defs)
next
  case results_closed
  with assms(2) show ?thesis by (simp add: control_inv_def pc_defs)
next
  case (first_read f)
  with assms(2) show ?thesis by (simp add: control_inv_def pc_defs)
next
  case (delayed d)
  with assms(2) show ?thesis by (simp add: control_inv_def pc_defs)
next
  case (played k k' t)
  with assms(2) show ?thesis by (simp add: control_inv_def pc_defs)
next
  case (idle k)
  with assms(2) show ?thesis by simp
qed

lemma control_inv_worker:
  assumes "worker_step p w s = Some s'" "control_inv p s"
  shows "control_inv p s'"
  using assms(1)
proof (cases rule: worker_step_cases)
  case (crashed e)
  with assms(2) show ?thesis by (simp add: control_inv_def pc_defs)
next
  case returned
  with assms(2) show ?thesis by (simp add: control_inv_def pc_defs)
next
  case (rendered job rest lines)
  with assms(2) show ?thesis by (simp add: control_inv_def pc_defs)
next
  case (result_sent job lines)
  with assms(2) show ?thesis by (simp add: control_inv_def pc_defs)
next
  case (released job)
  with assms(2) show ?thesis by (simp add: control_inv_def pc_defs)
qed

lemma control_inv_collector:
  assumes "collector_step s = Some s'" "control_inv p s"
  shows "control_inv p s'"
  using assms(1)
proof (cases rule: collector_step_cases)
  case (crashed e)
  with assms(2) show ?thesis by (simp add: control_inv_def pc_defs)
next
  case finished
  with assms(2) show ?thesis by (auto simp: control_inv_def pc_defs split: if_splits)
next
  case (stored result rest)
  with assms(2) show ?thesis by (auto simp: control_inv_def pc_defs split: if_splits)
qed


text \<open>
  The wait group counts the workers still running; a worker returns only from an empty,
  closed job queue.
\<close>

lemma filter_length_update:
  assumes "i < length xs"
  shows "length (filter P (xs[i := x])) + (if P (xs ! i) then 1 else 0) =
           length (filter P xs) + (if P x then 1 else 0)"
  using assms
proof (induction xs arbitrary: i)
  case Nil
  then show ?case by simp
next
  case (Cons a xs)
  then show ?case by (cases i) auto
qed

lemma sum_list_map_update:
  fixes f :: "'a \<Rightarrow> nat"
  assumes "i < length xs"
  shows "sum_list (map f (xs[i := x])) + f (xs ! i) = sum_list (map f xs) + f x"
  using assms
proof (induction xs arbitrary: i)
  case Nil
  then show ?case by simp
next
  case (Cons a xs)
  then show ?case by (cases i) auto
qed

lemma all_done:
  assumes "length (filter (\<lambda>w. w \<noteq> WDone) ws) = 0" "w < length ws"
  shows "ws ! w = WDone"
proof -
  from assms(1) have "\<forall>x\<in>set ws. x = WDone"
    by (simp add: filter_empty_conv)
  with assms(2) show ?thesis by simp
qed

lemma done_after_update:
  assumes "WDone \<in> set (ws[w := x])" "x \<noteq> WDone"
  shows "WDone \<in> set ws"
  using assms set_update_subset_insert [of ws w x] by auto

lemma workers_inv_main:
  assumes "main_step p s = Some s'" "control_inv p s" "workers_inv s"
  shows "workers_inv s'"
  using assms(1)
proof (cases rule: main_step_cases)
  case (crashed e)
  with assms(3) show ?thesis by (auto simp: workers_inv_def)
next
  case (composed i c)
  with assms(3) show ?thesis by (auto simp: workers_inv_def pc_defs)
next
  case (jobs_closed i)
  with assms(2,3) show ?thesis by (auto simp: workers_inv_def control_inv_def pc_defs)
next
  case (acquired i b rest)
  with assms(3) show ?thesis by (auto simp: workers_inv_def pc_defs)
next
  case (sent i b job)
  with assms(2,3) show ?thesis by (auto simp: workers_inv_def control_inv_def pc_defs)
next
  case started
  with assms(3) show ?thesis by (auto simp: workers_inv_def pc_defs)
next
  case waited
  with assms(3) show ?thesis by (auto simp: workers_inv_def pc_defs)
next
  case results_closed
  with assms(3) show ?thesis by (auto simp: workers_inv_def pc_defs)
next
  case (first_read f)
  with assms(3) show ?thesis by (auto simp: workers_inv_def pc_defs)
next
  case (delayed d)
  with assms(3) show ?thesis by (auto simp: workers_inv_def pc_defs)
next
  case (played k k' t)
  with assms(3) show ?thesis by (auto simp: workers_inv_def pc_defs)
next
  case (idle k)
  with assms(3) show ?thesis by simp
qed

lemma workers_inv_worker:
  assumes "worker_step p w s = Some s'" "workers_inv s"
  shows "workers_inv s'"
  using assms(1)
proof (cases rule: worker_step_cases)
  case (crashed e)
  with assms(2) show ?thesis by (auto simp: workers_inv_def)
next
  case returned
  from filter_length_update [OF returned(1), of "\<lambda>w. w \<noteq> WDone" WDone] returned(2)
  have "length (filter (\<lambda>w. w \<noteq> WDone) ((workers s)[w := WDone])) + 1 =
          length (filter (\<lambda>w. w \<noteq> WDone) (workers s))"
    by simp
  with assms(2) returned show ?thesis
    by (auto simp: workers_inv_def)
next
  case (rendered job rest lines)
  from filter_length_update [OF rendered(1), of "\<lambda>w. w \<noteq> WDone" "WSendResult job lines"]
    rendered(2)
  have 1: "length (filter (\<lambda>w. w \<noteq> WDone) ((workers s)[w := WSendResult job lines])) =
          length (filter (\<lambda>w. w \<noteq> WDone) (workers s))"
    by simp
  have 2: "WDone \<notin> set ((workers s)[w := WSendResult job lines])"
  proof
    assume "WDone \<in> set ((workers s)[w := WSendResult job lines])"
    then have "WDone \<in> set (workers s)" by (rule done_after_update) simp
    with assms(2) rendered(3) show False by (auto simp: workers_inv_def)
  qed
  from assms(2) rendered 1 2 show ?thesis
    by (auto simp: workers_inv_def)
next
  case (result_sent job lines)
  from filter_length_update [OF result_sent(1), of "\<lambda>w. w \<noteq> WDone" "WRelease job"]
    result_sent(2)
  have 1: "length (filter (\<lambda>w. w \<noteq> WDone) ((workers s)[w := WRelease job])) =
          length (filter (\<lambda>w. w \<noteq> WDone) (workers s))"
    by simp
  have 2: "WDone \<in> set ((workers s)[w := WRelease job]) \<Longrightarrow> WDone \<in> set (workers s)"
    using done_after_update [of "workers s" w "WRelease job"] by simp
  from assms(2) result_sent 1 2 show ?thesis
    by (auto simp: workers_inv_def)
next
  case (released job)
  from filter_length_update [OF released(1), of "\<lambda>w. w \<noteq> WDone" "WRecv"]
    released(2)
  have 1: "length (filter (\<lambda>w. w \<noteq> WDone) ((workers s)[w := WRecv])) =
          length (filter (\<lambda>w. w \<noteq> WDone) (workers s))"
    by simp
  have 2: "WDone \<in> set ((workers s)[w := WRecv]) \<Longrightarrow> WDone \<in> set (workers s)"
    using done_after_update [of "workers s" w WRecv] by simp
  from assms(2) released 1 2 show ?thesis
    by (auto simp: workers_inv_def)
qed

lemma workers_inv_collector:
  assumes "collector_step s = Some s'" "workers_inv s"
  shows "workers_inv s'"
  using assms(1)
proof (cases rule: collector_step_cases)
  case (crashed e)
  with assms(2) show ?thesis by (auto simp: workers_inv_def)
next
  case finished
  with assms(2) show ?thesis by (auto simp: workers_inv_def)
next
  case (stored result rest)
  with assms(2) show ?thesis by (auto simp: workers_inv_def)
qed


text \<open>
  Every dispatched frame is in exactly one place: the job queue, a worker's hands, the
  result queue, or \<^verbatim>\<open>prerendered\<close>; a frame not yet dispatched is in none.
\<close>

lemma collected_inv_same:
  assumes "collected_inv p s" "jobs s' = jobs s" "workers s' = workers s"
    "results s' = results s" "writes s' = writes s" "prerendered s' = prerendered s"
    "dispatched p s' = dispatched p s" "collector s' = collector s"
    "results_closed s \<longrightarrow> results_closed s'"
  shows "collected_inv p s'"
proof -
  from assms(2-5) have "in_flight s' k = in_flight s k" "written s' k = written s k" for k
    by (simp_all add: in_flight_def written_def)
  with assms show ?thesis
    by (simp add: collected_inv_def)
qed

lemma collected_inv_main:
  assumes "main_step p s = Some s'" "control_inv p s" "collected_inv p s"
  shows "collected_inv p s'"
  using assms(1)
proof (cases rule: main_step_cases)
  case (crashed e)
  then show ?thesis by (intro collected_inv_same [OF assms(3)]) (simp_all add: pc_defs)
next
  case (composed i c)
  then show ?thesis by (intro collected_inv_same [OF assms(3)]) (simp_all add: pc_defs)
next
  case (jobs_closed i)
  with assms(2) have "i = frame_count p" by (simp add: control_inv_def pc_defs)
  with jobs_closed show ?thesis
    by (intro collected_inv_same [OF assms(3)]) (simp_all add: pc_defs)
next
  case (acquired i b rest)
  then show ?thesis by (intro collected_inv_same [OF assms(3)]) (simp_all add: pc_defs)
next
  case (sent i b job)
  then have "in_flight s' k = in_flight s k + (if k = i then 1 else 0)"
    "written s' k = written s k" for k
    by (simp_all add: in_flight_def written_def)
  moreover from sent have "dispatched p s = i" "dispatched p s' = i + 1"
    "prerendered s' = prerendered s" "collector s' = collector s" "results s' = results s"
    "results_closed s' = results_closed s"
    by (simp_all add: pc_defs)
  ultimately show ?thesis
    using assms(3) by (simp add: collected_inv_def)
next
  case started
  with assms(2) have e: "writes s = []" "prerendered s = []" "collector s = CNotStarted"
    by (simp_all add: control_inv_def pc_defs)
  with started have "in_flight s' k = in_flight s k" "written s' k = 0" for k
    by (simp_all add: in_flight_def written_def)
  moreover from started have "dispatched p s = frame_count p" "dispatched p s' = frame_count p"
    "prerendered s' = replicate (frame_count p) None" "collector s' = CRecv"
    by (simp_all add: pc_defs)
  ultimately show ?thesis
    using assms(3) by (simp add: collected_inv_def)
next
  case waited
  then show ?thesis by (intro collected_inv_same [OF assms(3)]) (simp_all add: pc_defs)
next
  case results_closed
  then show ?thesis by (intro collected_inv_same [OF assms(3)]) (simp_all add: pc_defs)
next
  case (first_read f)
  then show ?thesis by (intro collected_inv_same [OF assms(3)]) (simp_all add: pc_defs)
next
  case (delayed d)
  then show ?thesis by (intro collected_inv_same [OF assms(3)]) (simp_all add: pc_defs)
next
  case (played k k' t)
  then show ?thesis by (intro collected_inv_same [OF assms(3)]) (simp_all add: pc_defs)
next
  case (idle k)
  with assms(3) show ?thesis by simp
qed

lemma collected_inv_worker:
  assumes "worker_step p w s = Some s'" "control_inv p s" "workers_inv s" "collected_inv p s"
  shows "collected_inv p s'"
  using assms(1)
proof (cases rule: worker_step_cases)
  case (crashed e)
  then show ?thesis by (intro collected_inv_same [OF assms(4)]) (simp_all add: pc_defs)
next
  case returned
  from sum_list_map_update [OF returned(1), of "holds_index k" WDone for k] returned(2)
  have "sum_list (map (holds_index k) ((workers s)[w := WDone])) =
          sum_list (map (holds_index k) (workers s))" for k
    by (simp add: holds_index_def)
  with returned have "in_flight s' k = in_flight s k" "written s' k = written s k" for k
    by (simp_all add: in_flight_def written_def)
  moreover from returned have "dispatched p s' = dispatched p s"
    "prerendered s' = prerendered s" "collector s' = collector s" "results s' = results s"
    "results_closed s' = results_closed s"
    by (simp_all add: pc_defs)
  ultimately show ?thesis
    using assms(4) by (simp add: collected_inv_def)
next
  case (rendered job rest lines)
  from sum_list_map_update [OF rendered(1), of "holds_index k" "WSendResult job lines" for k]
    rendered(2)
  have "sum_list (map (holds_index k) ((workers s)[w := WSendResult job lines])) =
          sum_list (map (holds_index k) (workers s)) + (if job_Index job = k then 1 else 0)" for k
    by (simp add: holds_index_def)
  with rendered have "in_flight s' k = in_flight s k" "written s' k = written s k" for k
    by (simp_all add: in_flight_def written_def)
  moreover from rendered have "dispatched p s' = dispatched p s"
    "prerendered s' = prerendered s" "collector s' = collector s" "results s' = results s"
    "results_closed s' = results_closed s"
    by (simp_all add: pc_defs)
  ultimately show ?thesis
    using assms(4) by (simp add: collected_inv_def)
next
  case (result_sent job lines)
  from sum_list_map_update [OF result_sent(1), of "holds_index k" "WRelease job" for k]
    result_sent(2)
  have h: "sum_list (map (holds_index k) (workers s)) =
          sum_list (map (holds_index k) ((workers s)[w := WRelease job])) +
          (if job_Index job = k then 1 else 0)" for k
    by (simp add: holds_index_def)
  from result_sent have "in_flight s' k = in_flight s k" "written s' k = written s k" for k
    by (simp_all add: in_flight_def written_def h)
  moreover from result_sent have "dispatched p s' = dispatched p s"
    "prerendered s' = prerendered s" "collector s' = collector s"
    "results_closed s' = results_closed s"
    by (simp_all add: pc_defs)
  moreover have "collector s \<noteq> CDone"
  proof
    assume "collector s = CDone"
    with assms(4) have "results_closed s" by (simp add: collected_inv_def)
    with assms(2) have "past_wait (main s)" by (simp add: control_inv_def)
    with assms(3) have "length (filter (\<lambda>w. w \<noteq> WDone) (workers s)) = 0"
      by (auto simp: workers_inv_def)
    from all_done [OF this result_sent(1)] result_sent(2) show False by simp
  qed
  ultimately show ?thesis
    using assms(4) by (simp add: collected_inv_def)
next
  case (released job)
  from sum_list_map_update [OF released(1), of "holds_index k" WRecv for k] released(2)
  have "sum_list (map (holds_index k) ((workers s)[w := WRecv])) =
          sum_list (map (holds_index k) (workers s))" for k
    by (simp add: holds_index_def)
  with released have "in_flight s' k = in_flight s k" "written s' k = written s k" for k
    by (simp_all add: in_flight_def written_def)
  moreover from released have "dispatched p s' = dispatched p s"
    "prerendered s' = prerendered s" "collector s' = collector s" "results s' = results s"
    "results_closed s' = results_closed s"
    by (simp_all add: pc_defs)
  ultimately show ?thesis
    using assms(4) by (simp add: collected_inv_def)
qed

lemma collected_inv_collector:
  assumes "collector_step s = Some s'" "control_inv p s" "collected_inv p s"
  shows "collected_inv p s'"
  using assms(1)
proof (cases rule: collector_step_cases)
  case (crashed e)
  then show ?thesis by (intro collected_inv_same [OF assms(3)]) (simp_all add: pc_defs)
next
  case finished
  then have "in_flight s' k = in_flight s k" "written s' k = written s k" for k
    by (simp_all add: in_flight_def written_def)
  moreover from finished have "dispatched p s' = dispatched p s"
    "prerendered s' = prerendered s" "results s' = []" "results_closed s'"
    by (simp_all add: pc_defs)
  ultimately show ?thesis
    using assms(3) by (simp add: collected_inv_def)
next
  case (stored result rest)
  let ?i = "res_Index result"
  from assms(2) stored(1) have len: "length (writes s) = length (prerendered s)"
    by (auto simp: control_inv_def split: if_splits)
  with stored have w: "written s' k = written s k + (if k = ?i then 1 else 0)" for k
    by (simp add: written_def)
  with stored have f: "in_flight s' k = in_flight s k" for k
    by (simp add: in_flight_def)
  from stored have d: "dispatched p s' = dispatched p s" "collector s' = CRecv"
    "prerendered s' = (prerendered s)[?i := Some (res_Lines result)]"
    by (simp_all add: pc_defs)
  have "(prerendered s' ! k = None) = (written s' k = 0)" if "k < length (prerendered s')" for k
  proof (cases "k = ?i")
    case True
    with that d(3) w [of k] show ?thesis by simp
  next
    case False
    with that d(3) w [of k] assms(3) show ?thesis by (simp add: collected_inv_def)
  qed
  with f d assms(3) show ?thesis
    by (simp add: collected_inv_def)
qed


text \<open>The three invariants hold at the start and after every step.\<close>

lemma step_inv:
  assumes "step p a s = Some s'" "pipeline_inv p s"
  shows "pipeline_inv p s'"
proof (cases a)
  case Main
  with assms(1) have "main_step p s = Some s'"
    by (simp add: step_def split: if_splits)
  with assms(2) control_inv_main workers_inv_main collected_inv_main show ?thesis
    unfolding pipeline_inv_def by blast
next
  case (Worker w)
  with assms(1) have "worker_step p w s = Some s'"
    by (simp add: step_def split: if_splits)
  with assms(2) control_inv_worker workers_inv_worker collected_inv_worker show ?thesis
    unfolding pipeline_inv_def by blast
next
  case Collector
  with assms(1) have "collector_step s = Some s'"
    by (simp add: step_def split: if_splits)
  with assms(2) control_inv_collector workers_inv_collector collected_inv_collector
  show ?thesis
    unfolding pipeline_inv_def by blast
qed

lemma run_inv:
  assumes "run p sched s = Some s'" "pipeline_inv p s"
  shows "pipeline_inv p s'"
  using assms
proof (induction sched arbitrary: s)
  case Nil
  then show ?case by simp
next
  case (Cons a sched)
  then obtain s1 where 1: "step p a s = Some s1" "run p sched s1 = Some s'"
    by (auto split: option.splits)
  from Cons.IH [OF 1(2) step_inv [OF 1(1) Cons.prems(2)]] show ?case .
qed

lemma init_inv: "pipeline_inv p (init p)"
proof -
  have "sum_list (map (holds_index k) (replicate n WRecv)) = 0" for n k
    by (induction n) (simp_all add: holds_index_def)
  then have "collected_inv p (init p)"
    by (simp add: collected_inv_def in_flight_def written_def init_def pc_defs)
  moreover have "control_inv p (init p)"
    by (simp add: control_inv_def init_def pc_defs)
  moreover have "workers_inv (init p)"
    by (simp add: workers_inv_def init_def pc_defs)
  ultimately show ?thesis
    by (simp add: pipeline_inv_def)
qed

text \<open>
  Under any schedule no entry of \<^verbatim>\<open>prerendered\<close> is assigned twice. Once the collecting
  goroutine has left its loop, every entry has been assigned exactly once, and the queues
  are empty. The program does not wait for that moment: see
  \<^const>\<open>collector_late\<close>.
\<close>

lemma written_at_most_once:
  assumes "run p sched (init p) = Some s"
  shows "written s k \<le> 1"
proof -
  from run_inv [OF assms init_inv] have "collected_inv p s"
    by (simp add: pipeline_inv_def)
  then have "in_flight s k \<le> 1"
    by (simp add: collected_inv_def)
  then show ?thesis
    by (simp add: in_flight_def)
qed

lemma collected_exactly_once:
  assumes "run p sched (init p) = Some s" "collector s = CDone" "k < frame_count p"
  shows "length (prerendered s) = frame_count p \<and> prerendered s ! k \<noteq> None \<and>
         written s k = 1 \<and> jobs s = [] \<and> results s = []"
proof -
  from run_inv [OF assms(1) init_inv]
  have c: "control_inv p s" and w: "workers_inv s" and f: "collected_inv p s"
    by (simp_all add: pipeline_inv_def)
  from f assms(2) have r: "results s = []" "results_closed s"
    by (simp_all add: collected_inv_def)
  with c have pw: "past_wait (main s)"
    by (simp add: control_inv_def)
  then have m: "\<not> in_loop (main s)" "main s \<noteq> AtStartCollector"
    by (auto simp: pc_defs split: main_pc.splits)
  with c have len: "length (prerendered s) = frame_count p" "length (workers s) = numWorkers p"
    by (simp_all add: control_inv_def)
  from pw have d: "dispatched p s = frame_count p"
    by (auto simp: pc_defs split: main_pc.splits)
  from pw w have z: "length (filter (\<lambda>w. w \<noteq> WDone) (workers s)) = 0"
    by (auto simp: workers_inv_def)
  have "holds_index k x = 0" if "x \<in> set (workers s)" for x
  proof -
    from that obtain i where "i < length (workers s)" "workers s ! i = x"
      by (auto simp: in_set_conv_nth)
    with all_done [OF z] show ?thesis by (auto simp: holds_index_def)
  qed
  then have h: "sum_list (map (holds_index k) (workers s)) = 0"
    by simp
  have j: "jobs s = []"
  proof (cases "workers s")
    case Nil
    with len have "numWorkers p = 0" by simp
    with run_pool [OF assms(1)] init_pool [of p] have "checked_out s = 0"
      by simp
    then show ?thesis
      by (simp add: checked_out_def)
  next
    case (Cons x xs)
    with all_done [OF z, of 0] have "WDone \<in> set (workers s)" by simp
    with w show ?thesis by (simp add: workers_inv_def)
  qed
  from f d assms(3) have "in_flight s k = 1"
    by (simp add: collected_inv_def)
  then have wr: "written s k = 1"
    unfolding in_flight_def h j r by simp
  with f len assms(3) have "prerendered s ! k \<noteq> None"
    by (simp add: collected_inv_def)
  with len wr j r show ?thesis by simp
qed

end
